theory Spec2Isabelle
  imports Main "HOL-Library.Sublist" "HOL-Library.Multiset"
begin

section \<open>Strings and character classes\<close>

text \<open>
  A JavaScript string is a sequence of UTF-16 code units. The model takes texts over the
  code units 0 to 255 (Latin-1), one \<open>char\<close> per code unit, so \<open>length\<close> is the
  \<open>.length\<close> of the source. All patterns and keywords of the program are ASCII.
\<close>

definition asciiLower :: string where
  "asciiLower = ''abcdefghijklmnopqrstuvwxyz''"

definition asciiUpper :: string where
  "asciiUpper = ''ABCDEFGHIJKLMNOPQRSTUVWXYZ''"

definition asciiDigits :: string where
  "asciiDigits = ''0123456789''"

definition latinLower :: string where
  "latinLower = [CHR 0xE0, CHR 0xE1, CHR 0xE2, CHR 0xE3, CHR 0xE4, CHR 0xE5, CHR 0xE6, CHR 0xE7,
                 CHR 0xE8, CHR 0xE9, CHR 0xEA, CHR 0xEB, CHR 0xEC, CHR 0xED, CHR 0xEE, CHR 0xEF,
                 CHR 0xF0, CHR 0xF1, CHR 0xF2, CHR 0xF3, CHR 0xF4, CHR 0xF5, CHR 0xF6,
                 CHR 0xF8, CHR 0xF9, CHR 0xFA, CHR 0xFB, CHR 0xFC, CHR 0xFD, CHR 0xFE]"

definition latinUpper :: string where
  "latinUpper = [CHR 0xC0, CHR 0xC1, CHR 0xC2, CHR 0xC3, CHR 0xC4, CHR 0xC5, CHR 0xC6, CHR 0xC7,
                 CHR 0xC8, CHR 0xC9, CHR 0xCA, CHR 0xCB, CHR 0xCC, CHR 0xCD, CHR 0xCE, CHR 0xCF,
                 CHR 0xD0, CHR 0xD1, CHR 0xD2, CHR 0xD3, CHR 0xD4, CHR 0xD5, CHR 0xD6,
                 CHR 0xD8, CHR 0xD9, CHR 0xDA, CHR 0xDB, CHR 0xDC, CHR 0xDD, CHR 0xDE]"

text \<open>
  \<open>Canonicalize\<close> of the regular-expression semantics for the flag \<open>i\<close> without \<open>u\<close>:
  the upper-case form of a code unit when that is a single code unit. Inside Latin-1 the
  letters with an upper-case form in the range are a-z and the accented letters. A code
  unit whose upper-case form lies outside the range (\<open>0xB5\<close>, \<open>0xFF\<close>) stands for itself:
  no other code unit of the range has that form, so the comparisons are the same.
\<close>

definition canonicalize :: "char \<Rightarrow> char" where
  "canonicalize c =
     (case map_of (zip (asciiLower @ latinLower) (asciiUpper @ latinUpper)) c of
        Some u \<Rightarrow> u
      | None \<Rightarrow> c)"

text \<open>\<open>String.prototype.toLowerCase\<close>, code unit by code unit.\<close>

definition toLowerChar :: "char \<Rightarrow> char" where
  "toLowerChar c =
     (case map_of (zip (asciiUpper @ latinUpper) (asciiLower @ latinLower)) c of
        Some l \<Rightarrow> l
      | None \<Rightarrow> c)"

definition toLowerCase :: "string \<Rightarrow> string" where
  "toLowerCase s = map toLowerChar s"

text \<open>The class \<open>\w\<close>, also used by the assertion \<open>\b\<close>.\<close>

definition isWordChar :: "char \<Rightarrow> bool" where
  "isWordChar c = (c \<in> set (asciiLower @ asciiUpper @ asciiDigits @ ''_''))"

text \<open>Line terminators: the characters that \<open>.\<close> does not match.\<close>

definition isLineTerminator :: "char \<Rightarrow> bool" where
  "isLineTerminator c = (c = CHR 0x0A \<or> c = CHR 0x0D)"

text \<open>The class \<open>\s\<close>, which is also what \<open>trim\<close> strips: white space and line terminators.\<close>

definition isWhiteSpace :: "char \<Rightarrow> bool" where
  "isWhiteSpace c =
     (c = CHR 0x09 \<or> c = CHR 0x0A \<or> c = CHR 0x0B \<or> c = CHR 0x0C \<or> c = CHR 0x0D
      \<or> c = CHR 0x20 \<or> c = CHR 0xA0)"

definition trim :: "string \<Rightarrow> string" where
  "trim s = rev (dropWhile isWhiteSpace (rev (dropWhile isWhiteSpace s)))"

fun isPrefix :: "string \<Rightarrow> string \<Rightarrow> bool" where
  "isPrefix [] s = True"
| "isPrefix (k # ks) [] = False"
| "isPrefix (k # ks) (c # cs) = (k = c \<and> isPrefix ks cs)"

text \<open>\<open>s.includes(k)\<close>: \<open>k\<close> occurs in \<open>s\<close> as a contiguous substring.\<close>

fun includes_str :: "string \<Rightarrow> string \<Rightarrow> bool" where
  "includes_str [] k = (k = [])"
| "includes_str (c # cs) k = (isPrefix k (c # cs) \<or> includes_str cs k)"

text \<open>\<open>Array.prototype.join\<close>.\<close>

fun join :: "string \<Rightarrow> string list \<Rightarrow> string" where
  "join sep [] = []"
| "join sep [x] = x"
| "join sep (x # y # ys) = x @ sep @ join sep (y # ys)"

section \<open>Regular expressions\<close>

text \<open>
  A cursor is a position in the subject string: the code units before it, nearest first,
  and the code units from it on. Its index is the length of the first component.
\<close>

type_synonym cursor = "string \<times> string"

datatype regex =
    Eps
  | Chr char
  | Cls "char \<Rightarrow> bool"
  | Seq regex regex
  | Alt regex regex
  | Star regex
  | WordB

definition step_chr :: "(char \<Rightarrow> bool) \<Rightarrow> cursor \<Rightarrow> cursor list" where
  "step_chr P z = (case snd z of [] \<Rightarrow> [] | c # r \<Rightarrow> if P c then [(c # fst z, r)] else [])"

definition wordBefore :: "cursor \<Rightarrow> bool" where
  "wordBefore z = (case fst z of [] \<Rightarrow> False | c # _ \<Rightarrow> isWordChar c)"

definition wordAfter :: "cursor \<Rightarrow> bool" where
  "wordAfter z = (case snd z of [] \<Rightarrow> False | c # _ \<Rightarrow> isWordChar c)"

text \<open>
  The backtracking matcher: \<open>matches ic r z\<close> lists the cursors at which a match of \<open>r\<close>
  that starts at \<open>z\<close> can end, in the order in which backtracking tries them; the head is
  the end of the match the engine reports. \<open>ic\<close> is the flag \<open>i\<close>: a pattern character
  then matches a code unit with the same canonical form. The classes of the program's
  patterns under that flag, \<open>.\<close> and \<open>\w\<close>, hold a code unit exactly when they hold its
  canonical form, so a class is tested as it is. A greedy star tries one more iteration
  first and rejects an iteration that consumes nothing.
\<close>

function matches :: "bool \<Rightarrow> regex \<Rightarrow> cursor \<Rightarrow> cursor list" where
  "matches ic Eps z = [z]"
| "matches ic (Chr a) z =
     step_chr (\<lambda>c. if ic then canonicalize a = canonicalize c else a = c) z"
| "matches ic (Cls P) z = step_chr P z"
| "matches ic (Seq a b) z = concat (map (matches ic b) (matches ic a z))"
| "matches ic (Alt a b) z = matches ic a z @ matches ic b z"
| "matches ic (Star a) z =
     concat (map (\<lambda>z'. if length (snd z') < length (snd z) then matches ic (Star a) z' else [])
                 (matches ic a z)) @ [z]"
| "matches ic WordB z = (if wordBefore z \<noteq> wordAfter z then [z] else [])"
  by pat_completeness auto
termination
  by (relation "inv_image (less_than <*lex*> less_than) (\<lambda>(ic, r, z). (size r, length (snd z)))")
     auto

text \<open>
  The search of \<open>RegExpBuiltinExec\<close>: try the cursor, then each later one, up to and
  including the end of the subject. The result is the start and the end of the match.
\<close>

fun exec :: "bool \<Rightarrow> regex \<Rightarrow> string \<Rightarrow> string \<Rightarrow> (cursor \<times> cursor) option" where
  "exec ic r p [] =
     (case matches ic r (p, []) of z # _ \<Rightarrow> Some ((p, []), z) | [] \<Rightarrow> None)"
| "exec ic r p (c # s) =
     (case matches ic r (p, c # s) of
        z # _ \<Rightarrow> Some ((p, c # s), z)
      | [] \<Rightarrow> exec ic r (c # p) s)"

definition matchedText :: "cursor \<times> cursor \<Rightarrow> string" where
  "matchedText m = take (length (snd (fst m)) - length (snd (snd m))) (snd (fst m))"

declare matches.simps [simp del]

text \<open>
  A match never moves the cursor backwards, so the guard of the star is exactly the
  rejection of an empty iteration, and the loops below, which go on from the end of a
  match, terminate.
\<close>

lemma step_chr_length: "z' \<in> set (step_chr P z) \<Longrightarrow> length (snd z') \<le> length (snd z)"
  by (cases z) (auto simp: step_chr_def split: list.splits if_splits)

lemma matches_length: "z' \<in> set (matches ic r z) \<Longrightarrow> length (snd z') \<le> length (snd z)"
proof (induction ic r z arbitrary: z' rule: matches.induct)
  case (1 ic z)
  then show ?case by (simp add: matches.simps)
next
  case (2 ic a z)
  then show ?case using step_chr_length by (simp add: matches.simps)
next
  case (3 ic P z)
  then show ?case using step_chr_length by (simp add: matches.simps)
next
  case (4 ic a b z)
  from "4.prems" obtain y where y: "y \<in> set (matches ic a z)" and z': "z' \<in> set (matches ic b y)"
    by (auto simp: matches.simps)
  from "4.IH"(1) [OF y] "4.IH"(2) [OF y z'] show ?case by simp
next
  case (5 ic a b z)
  from "5.prems" have "z' \<in> set (matches ic a z) \<or> z' \<in> set (matches ic b z)"
    by (simp add: matches.simps)
  with "5.IH" show ?case by blast
next
  case (6 ic a z)
  from "6.prems" consider "z' = z"
    | y where "y \<in> set (matches ic a z)" "length (snd y) < length (snd z)"
        "z' \<in> set (matches ic (Star a) y)"
    by (subst (asm) matches.simps) (auto split: if_splits)
  then show ?case
  proof cases
    case 1
    then show ?thesis by simp
  next
    case 2
    from "6.IH"(2) [OF 2(1) 2(2) 2(3)] 2(2) show ?thesis by simp
  qed
next
  case (7 ic z)
  then show ?case by (simp add: matches.simps split: if_splits)
qed

lemma exec_length:
  "exec ic r p s = Some (z0, z1) \<Longrightarrow>
     length (snd z0) \<le> length s \<and> length (snd z1) \<le> length (snd z0)"
proof (induction s arbitrary: p)
  case Nil
  then obtain zs where "matches ic r (p, []) = z1 # zs" and z0: "z0 = (p, [])"
    by (auto split: list.splits)
  then have "z1 \<in> set (matches ic r (p, []))" by simp
  from matches_length [OF this] z0 show ?case by simp
next
  case (Cons c s)
  show ?case
  proof (cases "matches ic r (p, c # s)")
    case Nil
    with Cons.prems have "exec ic r (c # p) s = Some (z0, z1)" by simp
    from Cons.IH [OF this] show ?thesis by simp
  next
    case (Cons z zs)
    with Cons.prems have "z0 = (p, c # s)" "z1 = z" by auto
    moreover have "z \<in> set (matches ic r (p, c # s))" using Cons by simp
    ultimately show ?thesis using matches_length [of z ic r "(p, c # s)"] by simp
  qed
qed

text \<open>
  Every match of a global regular expression from a cursor on, as \<open>String.prototype.match\<close>
  and \<open>matchAll\<close> collect them: the next search starts where the last match ended, one
  code unit further after an empty match.
\<close>

function match_all_from :: "bool \<Rightarrow> regex \<Rightarrow> string \<Rightarrow> string \<Rightarrow> (cursor \<times> cursor) list" where
  "match_all_from ic r p s =
     (case exec ic r p s of
        None \<Rightarrow> []
      | Some (z0, z1) \<Rightarrow>
          (z0, z1) #
          (if length (snd z1) = length (snd z0)
           then (case snd z1 of [] \<Rightarrow> [] | c # s' \<Rightarrow> match_all_from ic r (c # fst z1) s')
           else match_all_from ic r (fst z1) (snd z1)))"
  by pat_completeness auto
termination
proof (relation "measure (\<lambda>(ic, r, p, s). length s)", goal_cases)
  case 1
  show ?case by simp
next
  case (2 ic r p s m z0 z1 c s')
  then have "exec ic r p s = Some (z0, z1)" and "snd z1 = c # s'" by simp_all
  with exec_length [of ic r p s z0 z1] show ?case by simp
next
  case (3 ic r p s m z0 z1)
  then have "exec ic r p s = Some (z0, z1)" and "length (snd z1) \<noteq> length (snd z0)"
    by simp_all
  with exec_length [of ic r p s z0 z1] have "length (snd z1) < length s" by simp
  then show ?case by (cases z1) simp
qed

declare match_all_from.simps [simp del]

definition match_all :: "bool \<Rightarrow> regex \<Rightarrow> string \<Rightarrow> string list" where
  "match_all ic r s = map matchedText (match_all_from ic r [] s)"

text \<open>
  \<open>RegExp.prototype.exec\<close> on a global regular expression whose \<open>lastIndex\<close> is
  \<open>lastIndex\<close>: the search starts there; a failure, or a \<open>lastIndex\<close> beyond the end,
  resets \<open>lastIndex\<close> to 0, and a success moves it to the end of the match.
\<close>

definition regexp_exec :: "bool \<Rightarrow> regex \<Rightarrow> nat \<Rightarrow> string \<Rightarrow> (cursor \<times> cursor) option \<times> nat" where
  "regexp_exec ic r lastIndex s =
     (if length s < lastIndex then (None, 0)
      else (case exec ic r (rev (take lastIndex s)) (drop lastIndex s) of
              None \<Rightarrow> (None, 0)
            | Some m \<Rightarrow> (Some m, length (fst (snd m)))))"

text \<open>\<open>RegExp.prototype.test\<close> on a global regular expression.\<close>

definition regexp_test :: "bool \<Rightarrow> regex \<Rightarrow> nat \<Rightarrow> string \<Rightarrow> bool \<times> nat" where
  "regexp_test ic r lastIndex s =
     (case regexp_exec ic r lastIndex s of (m, lastIndex') \<Rightarrow> (m \<noteq> None, lastIndex'))"

text \<open>\<open>test\<close> on a regular expression without the flags \<open>g\<close> and \<open>y\<close>: no state.\<close>

definition test_plain :: "bool \<Rightarrow> regex \<Rightarrow> string \<Rightarrow> bool" where
  "test_plain ic r s = (exec ic r [] s \<noteq> None)"

text \<open>The indices of the subject, from the cursor on, at which the pattern matches.\<close>

fun matchStarts :: "bool \<Rightarrow> regex \<Rightarrow> string \<Rightarrow> string \<Rightarrow> nat list" where
  "matchStarts ic r p [] = (if matches ic r (p, []) = [] then [] else [length p])"
| "matchStarts ic r p (c # s) =
     (if matches ic r (p, c # s) = [] then [] else [length p]) @ matchStarts ic r (c # p) s"

subsection \<open>Building patterns\<close>

fun lit :: "string \<Rightarrow> regex" where
  "lit [] = Eps"
| "lit [c] = Chr c"
| "lit (c # d # cs) = Seq (Chr c) (lit (d # cs))"

fun seqs :: "regex list \<Rightarrow> regex" where
  "seqs [] = Eps"
| "seqs [r] = r"
| "seqs (r # q # rs) = Seq r (seqs (q # rs))"

text \<open>An alternation of at least one alternative (the empty list is the empty class).\<close>

fun alts :: "regex list \<Rightarrow> regex" where
  "alts [] = Cls (\<lambda>c. False)"
| "alts [r] = r"
| "alts (r # q # rs) = Alt r (alts (q # rs))"

definition lits :: "string list \<Rightarrow> regex" where
  "lits ws = alts (map lit ws)"

definition plus :: "regex \<Rightarrow> regex" where
  "plus r = Seq r (Star r)"

definition dot :: regex where
  "dot = Cls (\<lambda>c. \<not> isLineTerminator c)"

text \<open>
  \<open>String.prototype.split\<close> with a regular expression: \<open>pre\<close> is the text before the
  position \<open>q\<close> of the scan, \<open>piece\<close> the text since the end \<open>p\<close> of the last separator
  (both nearest first). A separator must match at \<open>q\<close> itself; an empty match at \<open>p\<close> is
  skipped.
\<close>

function split_from :: "bool \<Rightarrow> regex \<Rightarrow> string \<Rightarrow> string \<Rightarrow> string \<Rightarrow> string list" where
  "split_from ic r pre piece s =
     (case s of
        [] \<Rightarrow> [rev piece]
      | c # s' \<Rightarrow>
          (case matches ic r (pre, s) of
             [] \<Rightarrow> split_from ic r (c # pre) (c # piece) s'
           | z # _ \<Rightarrow>
               if length (snd z) = length s \<and> piece = []
               then split_from ic r (c # pre) (c # piece) s'
               else rev piece # split_from ic r (fst z) [] (snd z)))"
  by pat_completeness auto
termination
proof (relation "inv_image (less_than <*lex*> less_than)
                  (\<lambda>(ic, r, pre, piece, s). (length s, if piece = [] then 0 else 1 :: nat))",
       goal_cases)
  case 1
  show ?case by auto
next
  case (2 ic r pre piece s c s')
  then show ?case by simp
next
  case (3 ic r pre piece s c s' z zs)
  then show ?case by simp
next
  case (4 ic r pre piece s c s' z zs)
  then have "z \<in> set (matches ic r (pre, s))" by simp
  from matches_length [OF this] have "length (snd z) \<le> length s" by simp
  with 4 show ?case by auto
qed

declare split_from.simps [simp del]

definition split :: "bool \<Rightarrow> regex \<Rightarrow> string \<Rightarrow> string list" where
  "split ic r s =
     (if s = [] then (if matches ic r ([], []) = [] then [[]] else [])
      else split_from ic r [] [] s)"

section \<open>Data model\<close>

datatype violation_type = scene_ending | show_dont_tell | dialogue

datatype severity = high | medium | low

text \<open>
  A violation object. Its \<open>type\<close> and \<open>severity\<close> are string literals of the program,
  three of each; \<open>pattern\<close> is present on forbidden-pattern violations only; \<open>vtext\<close>
  is the field \<open>text\<close>.
\<close>

record violation =
  vtype :: violation_type
  severity :: severity
  pattern :: "string option"
  vtext :: string
  message :: string

record analysis =
  violations :: "violation list"
  lastSentences :: "string list"
  wordCount :: nat

record validationRules =
  sceneEndings :: bool
  showDontTell :: bool
  dialogueNaturalness :: bool
  pacing :: bool
  emotionLabels :: bool

record settings =
  enabled :: bool
  autoCorrect :: bool
  showWarningsSetting :: bool
  showNoViolations :: bool
  strictMode :: bool
  guidelines :: string
  validationRules :: validationRules

definition defaultSettings :: settings where
  "defaultSettings =
     \<lparr>enabled = True, autoCorrect = True, showWarningsSetting = True, showNoViolations = False,
      strictMode = False, guidelines = [],
      validationRules = \<lparr>sceneEndings = True, showDontTell = True, dialogueNaturalness = True,
                         pacing = True, emotionLabels = True\<rparr>\<rparr>"

section \<open>Pattern library\<close>

text \<open>
  \<open>FORBIDDEN_PATTERNS\<close>, each with its \<open>source\<close>; all carry the flags \<open>gi\<close>:
  \<^verbatim>\<open>/one day at a time/gi\<close>,
  \<^verbatim>\<open>/(I|we|they) (would|will|must) .*(protect|ensure|make sure)/gi\<close>,
  \<^verbatim>\<open>/even (gods|people|characters) (had to|must|need to)/gi\<close>,
  \<^verbatim>\<open>/(this was|that was) .* and (I|we|they) (was|were) going to/gi\<close>,
  \<^verbatim>\<open>/standing (back|there) to (survey|appreciate|marvel|contemplate)/gi\<close>,
  \<^verbatim>\<open>/\. \w+ had to handle the basics/gi\<close>,
  \<^verbatim>\<open>/fortune cookie/gi\<close>.
\<close>

definition FORBIDDEN_PATTERNS :: "(string \<times> regex) list" where
  "FORBIDDEN_PATTERNS =
     [(''one day at a time'', lit ''one day at a time''),
      (''(I|we|they) (would|will|must) .*(protect|ensure|make sure)'',
       seqs [lits [''I'', ''we'', ''they''], lit '' '', lits [''would'', ''will'', ''must''],
             lit '' '', Star dot, lits [''protect'', ''ensure'', ''make sure'']]),
      (''even (gods|people|characters) (had to|must|need to)'',
       seqs [lit ''even '', lits [''gods'', ''people'', ''characters''], lit '' '',
             lits [''had to'', ''must'', ''need to'']]),
      (''(this was|that was) .* and (I|we|they) (was|were) going to'',
       seqs [lits [''this was'', ''that was''], lit '' '', Star dot, lit '' and '',
             lits [''I'', ''we'', ''they''], lit '' '', lits [''was'', ''were''],
             lit '' going to'']),
      (''standing (back|there) to (survey|appreciate|marvel|contemplate)'',
       seqs [lit ''standing '', lits [''back'', ''there''], lit '' to '',
             lits [''survey'', ''appreciate'', ''marvel'', ''contemplate'']]),
      (CHR 0x5C # ''. '' @ CHR 0x5C # ''w+ had to handle the basics'',
       seqs [lit ''. '', plus (Cls isWordChar), lit '' had to handle the basics'']),
      (''fortune cookie'', lit ''fortune cookie'')]"

text \<open>
  \<open>EMOTION_LABELS\<close>, all with the flags \<open>gi\<close>:
  \<^verbatim>\<open>/I felt (angry|sad|happy|scared|worried|anxious|nervous|excited)/gi\<close>,
  \<^verbatim>\<open>/(he|she|they) (seemed|appeared|looked) (sad|happy|angry|worried|nervous)/gi\<close>,
  \<^verbatim>\<open>/I was (angry|sad|happy|scared|terrified|elated)/gi\<close>.
\<close>

definition EMOTION_LABELS :: "regex list" where
  "EMOTION_LABELS =
     [seqs [lit ''I felt '',
            lits [''angry'', ''sad'', ''happy'', ''scared'', ''worried'', ''anxious'', ''nervous'',
                  ''excited'']],
      seqs [lits [''he'', ''she'', ''they''], lit '' '', lits [''seemed'', ''appeared'', ''looked''],
            lit '' '', lits [''sad'', ''happy'', ''angry'', ''worried'', ''nervous'']],
      seqs [lit ''I was '',
            lits [''angry'', ''sad'', ''happy'', ''scared'', ''terrified'', ''elated'']]]"

definition GOOD_ENDING_TYPES :: "(string \<times> string list) list" where
  "GOOD_ENDING_TYPES =
     [(''physicalAction'',
       [''grabbed'', ''reached'', ''turned'', ''walked'', ''opened'', ''closed'',
        ''pulled'', ''pushed'', ''picked up'', ''set down'']),
      (''dialogue'',
       [[CHR 0x22], ''said'', ''asked'', ''called'', ''muttered'', ''whispered'']),
      (''sensory'',
       [''heard'', ''saw'', ''felt'', ''smelled'', ''tasted'',
        ''buzzed'', ''rang'', ''slammed'', ''creaked'']),
      (''interruption'',
       [''door opened'', ''phone rang'', ''alarm'', ''knock'', ''crash'',
        ''footsteps'', ''voice''])]"

text \<open>The sentence pattern \<^verbatim>\<open>/[^.!?]+[.!?]+/g\<close>.\<close>

definition isTerminator :: "char \<Rightarrow> bool" where
  "isTerminator c = (c = CHR ''.'' \<or> c = CHR ''!'' \<or> c = CHR ''?'')"

definition sentencePattern :: regex where
  "sentencePattern = Seq (plus (Cls (\<lambda>c. \<not> isTerminator c))) (plus (Cls isTerminator))"

text \<open>The patterns of \<open>checkDialogue\<close>:
  \<^verbatim>\<open>/"([^"]+)"/g\<close>, \<^verbatim>\<open>/\b(I am|we are|they are|he is|she is)\b/i\<close> and
  \<^verbatim>\<open>/formal|lord|lady|your (majesty|highness)/i\<close>.\<close>

definition dialoguePattern :: regex where
  "dialoguePattern = seqs [Chr (CHR 0x22), plus (Cls (\<lambda>c. c \<noteq> CHR 0x22)), Chr (CHR 0x22)]"

definition formalPattern :: regex where
  "formalPattern =
     seqs [WordB, lits [''I am'', ''we are'', ''they are'', ''he is'', ''she is''], WordB]"

definition exemptPattern :: regex where
  "exemptPattern =
     alts [lit ''formal'', lit ''lord'', lit ''lady'',
           seqs [lit ''your '', lits [''majesty'', ''highness'']]]"

text \<open>The pattern \<^verbatim>\<open>/\s+/\<close> of the word count.\<close>

definition spacesPattern :: regex where
  "spacesPattern = plus (Cls isWhiteSpace)"

section \<open>Analyzer\<close>

text \<open>
  The only state the analysis and the correction share is the \<open>lastIndex\<close> of the seven
  regular-expression objects of \<open>FORBIDDEN_PATTERNS\<close>, which \<open>test\<close> reads and writes:
  \<open>st k\<close> is the \<open>lastIndex\<close> of the \<open>k\<close>-th pattern. The objects of \<open>EMOTION_LABELS\<close>
  are only passed to \<open>matchAll\<close>, which works on a copy, and the other patterns are
  created afresh where they are used.
\<close>

type_synonym rx_state = "nat \<Rightarrow> nat"

definition initialState :: rx_state where
  "initialState = (\<lambda>k. 0)"

text \<open>\<open>text.match(/[^.!?]+[.!?]+/g) || []\<close>\<close>

definition matchSentences :: "string \<Rightarrow> string list" where
  "matchSentences txt = match_all False sentencePattern txt"

text \<open>\<open>sentences.slice(-n)\<close>\<close>

definition getLastSentences :: "string \<Rightarrow> nat \<Rightarrow> string list" where
  "getLastSentences txt n =
     (let sentences = matchSentences txt
      in if n = 0 then sentences else drop (length sentences - n) sentences)"

definition forbiddenViolation :: "string \<Rightarrow> string \<Rightarrow> violation" where
  "forbiddenViolation src endingText =
     \<lparr>vtype = scene_ending, severity = high, pattern = Some src, vtext = endingText,
      message = ''Scene ending contains forbidden reflective/philosophical pattern''\<rparr>"

text \<open>The loop of \<open>checkSceneEnding\<close> over the patterns, from the \<open>k\<close>-th on.\<close>

fun forbiddenLoop ::
  "nat \<Rightarrow> (string \<times> regex) list \<Rightarrow> string \<Rightarrow> rx_state \<Rightarrow> violation list \<times> rx_state" where
  "forbiddenLoop k [] endingText st = ([], st)"
| "forbiddenLoop k (p # ps) endingText st =
     (case regexp_test True (snd p) (st k) endingText of
        (found, lastIndex) \<Rightarrow>
          (case forbiddenLoop (Suc k) ps endingText (st(k := lastIndex)) of
             (vs, st') \<Rightarrow>
               ((if found then [forbiddenViolation (fst p) endingText] else []) @ vs, st')))"

definition hasGoodEnding :: "string \<Rightarrow> bool" where
  "hasGoodEnding endingText =
     list_ex (\<lambda>keywords.
        list_ex (\<lambda>keyword. includes_str (toLowerCase endingText) (toLowerCase keyword)) keywords)
       (map snd GOOD_ENDING_TYPES)"

definition abstractViolation :: "string \<Rightarrow> violation" where
  "abstractViolation endingText =
     \<lparr>vtype = scene_ending, severity = medium, pattern = None, vtext = endingText,
      message = ''Scene ending lacks concrete action/dialogue/sensory detail''\<rparr>"

definition checkSceneEnding ::
  "settings \<Rightarrow> rx_state \<Rightarrow> string list \<Rightarrow> violation list \<times> rx_state" where
  "checkSceneEnding cfg st sentences =
     (let endingText = join '' '' sentences
      in case forbiddenLoop 0 FORBIDDEN_PATTERNS endingText st of
           (vs, st') \<Rightarrow>
             (vs @ (if \<not> hasGoodEnding endingText \<and> strictMode cfg
                    then [abstractViolation endingText] else []),
              st'))"

definition emotionViolation :: "string \<Rightarrow> violation" where
  "emotionViolation m =
     \<lparr>vtype = show_dont_tell, severity = medium, pattern = None, vtext = m,
      message = ''Using emotion labels instead of showing through actions/sensations''\<rparr>"

definition checkEmotionLabels :: "string \<Rightarrow> violation list" where
  "checkEmotionLabels txt =
     concat (map (\<lambda>r. map emotionViolation (match_all True r txt)) EMOTION_LABELS)"

definition dialogueViolation :: "string \<Rightarrow> violation" where
  "dialogueViolation speech =
     \<lparr>vtype = dialogue, severity = low, pattern = None, vtext = speech,
      message = ''Dialogue may be too formal - consider using contractions''\<rparr>"

text \<open>The group of the dialogue pattern is the match without its two quotation marks.\<close>

definition checkDialogue :: "string \<Rightarrow> violation list" where
  "checkDialogue txt =
     concat (map (\<lambda>d. let speech = butlast (tl d)
                       in if test_plain True formalPattern speech
                             \<and> \<not> test_plain True exemptPattern txt
                          then [dialogueViolation speech] else [])
                 (match_all False dialoguePattern txt))"

definition analyzeMessage :: "settings \<Rightarrow> rx_state \<Rightarrow> string \<Rightarrow> analysis \<times> rx_state" where
  "analyzeMessage cfg st txt =
     (let sentences = getLastSentences txt 3;
          ending = (if sceneEndings (validationRules cfg) then checkSceneEnding cfg st sentences
                    else ([], st));
          emotion = (if showDontTell (validationRules cfg) then checkEmotionLabels txt else []);
          speech = (if dialogueNaturalness (validationRules cfg) then checkDialogue txt else [])
      in (\<lparr>violations = fst ending @ emotion @ speech,
           lastSentences = sentences,
           wordCount = length (split False spacesPattern txt)\<rparr>,
          snd ending))"

section \<open>Corrector\<close>

text \<open>\<open>FORBIDDEN_PATTERNS.some(pattern => pattern.test(s))\<close>, from the \<open>k\<close>-th pattern
  on: the patterns after the first that matches are not tested.\<close>

fun someForbidden ::
  "nat \<Rightarrow> (string \<times> regex) list \<Rightarrow> string \<Rightarrow> rx_state \<Rightarrow> bool \<times> rx_state" where
  "someForbidden k [] s st = (False, st)"
| "someForbidden k (p # ps) s st =
     (case regexp_test True (snd p) (st k) s of
        (found, lastIndex) \<Rightarrow>
          if found then (True, st(k := lastIndex))
          else someForbidden (Suc k) ps s (st(k := lastIndex)))"

text \<open>Some forbidden pattern occurs in \<open>s\<close>: a search from the start of \<open>s\<close> succeeds.\<close>

definition matchesForbidden :: "string \<Rightarrow> bool" where
  "matchesForbidden s = list_ex (\<lambda>p. test_plain True (snd p) s) FORBIDDEN_PATTERNS"

text \<open>
  The removal of closing sentences: \<open>None\<close> when \<open>corrected\<close> is left alone, the
  sentences that are joined otherwise.
\<close>

definition dropProblematic :: "rx_state \<Rightarrow> string list \<Rightarrow> string list option \<times> rx_state" where
  "dropProblematic st sentences =
     (if length sentences > 2 then
        (case someForbidden 0 FORBIDDEN_PATTERNS (last sentences) st of
           (isProblematic, st1) \<Rightarrow>
             if isProblematic then
               (let popped = butlast sentences
                in case someForbidden 0 FORBIDDEN_PATTERNS (last popped) st1 of
                     (again, st2) \<Rightarrow> (Some (if again then butlast popped else popped), st2))
             else (None, st1))
      else (None, st))"

definition fixSceneEnding :: "rx_state \<Rightarrow> string \<Rightarrow> violation list \<Rightarrow> string \<times> rx_state" where
  "fixSceneEnding st txt vs =
     (if filter (\<lambda>v. vtype v = scene_ending) vs \<noteq> [] then
        (case dropProblematic st (matchSentences txt) of
           (None, st') \<Rightarrow> (txt, st')
         | (Some kept, st') \<Rightarrow> (join '' '' kept, st'))
      else (txt, st))"

text \<open>
  \<open>GetSubstitution\<close> for a string pattern: in the replacement, \<open>$$\<close> is a dollar sign,
  \<open>$&\<close> the matched text, \<open>$`\<close> the text before it and \<open>$'\<close> the text after it.
\<close>

fun getSubstitution :: "string \<Rightarrow> string \<Rightarrow> string \<Rightarrow> string \<Rightarrow> string" where
  "getSubstitution matched before after [] = []"
| "getSubstitution matched before after [c] = [c]"
| "getSubstitution matched before after (c # d # t) =
     (if c = CHR ''$'' \<and> d = CHR ''$'' then CHR ''$'' # getSubstitution matched before after t
      else if c = CHR ''$'' \<and> d = CHR ''&'' then matched @ getSubstitution matched before after t
      else if c = CHR ''$'' \<and> d = CHR 0x60 then before @ getSubstitution matched before after t
      else if c = CHR ''$'' \<and> d = CHR 0x27 then after @ getSubstitution matched before after t
      else c # getSubstitution matched before after (d # t))"

text \<open>\<open>s.replace(pat, replacement)\<close> with a string pattern: the first occurrence only.\<close>

fun replaceFrom :: "string \<Rightarrow> string \<Rightarrow> string \<Rightarrow> string \<Rightarrow> string" where
  "replaceFrom pre [] pat replacement =
     (if pat = [] then rev pre @ getSubstitution pat (rev pre) [] replacement else rev pre)"
| "replaceFrom pre (c # s) pat replacement =
     (if isPrefix pat (c # s)
      then rev pre @ getSubstitution pat (rev pre) (drop (length pat) (c # s)) replacement
           @ drop (length pat) (c # s)
      else replaceFrom (c # pre) s pat replacement)"

definition replace :: "string \<Rightarrow> string \<Rightarrow> string \<Rightarrow> string" where
  "replace s pat replacement = replaceFrom [] s pat replacement"

definition marker :: "string \<Rightarrow> string" where
  "marker t = ''[SHOW-DON'T-TELL: '' @ t @ '']''"

definition markEmotions :: "string \<Rightarrow> violation list \<Rightarrow> string" where
  "markEmotions corrected vs =
     foldl (\<lambda>c v. replace c (vtext v) (marker (vtext v))) corrected
           (filter (\<lambda>v. vtype v = show_dont_tell) vs)"

definition fallbackCorrection :: "rx_state \<Rightarrow> string \<Rightarrow> analysis \<Rightarrow> string \<times> rx_state" where
  "fallbackCorrection st txt a =
     (case fixSceneEnding st txt (violations a) of
        (corrected, st') \<Rightarrow> (markEmotions corrected (violations a), st'))"

text \<open>The rewrite collaborator \<open>generateQuietPrompt\<close>: it raises or returns a string.\<close>

datatype llm_result = Raised | Returned string


definition failure :: "string \<Rightarrow> llm_result" where
  "failure prompt = Raised"

definition newline :: string where
  "newline = [CHR 0x0A]"

definition typeName :: "violation_type \<Rightarrow> string" where
  "typeName t = (case t of scene_ending \<Rightarrow> ''scene_ending''
                 | show_dont_tell \<Rightarrow> ''show_dont_tell'' | dialogue \<Rightarrow> ''dialogue'')"

definition violationDetails :: "violation list \<Rightarrow> string" where
  "violationDetails vs =
     join newline
       (map (\<lambda>v. ''- '' @ typeName (vtype v) @ '': '' @ message v @
                  (if vtext v \<noteq> []
                   then newline @ ''  Problem text: '' @ [CHR 0x22] @ take 100 (vtext v) @ ''...''
                        @ [CHR 0x22]
                   else []))
            vs)"

definition correctionPrompt :: "string \<Rightarrow> analysis \<Rightarrow> string" where
  "correctionPrompt txt a =
     join newline
       [''You are a writing assistant helping to fix storytelling guideline violations.'',
        [],
        ''ORIGINAL TEXT:'',
        txt,
        [],
        ''VIOLATIONS FOUND:'',
        violationDetails (violations a),
        [],
        ''INSTRUCTIONS:'',
        ''1. Fix the violations while preserving the core narrative and events'',
        ''2. For scene endings: Replace reflective/philosophical endings with concrete action, dialogue, sensory detail, or interruption'',
        ''3. For show-don't-tell: Replace emotion labels with physical sensations, body language, or environmental details'',
        ''4. For dialogue: Make speech more natural with contractions where appropriate'',
        ''5. Keep the same POV, tense, and character voice'',
        ''6. Make minimal changes - only fix what's broken'',
        [],
        ''Return ONLY the corrected text, nothing else. No explanations, no commentary.'']"

definition correctMessage ::
  "(string \<Rightarrow> llm_result) \<Rightarrow> rx_state \<Rightarrow> string \<Rightarrow> analysis \<Rightarrow> string \<times> rx_state" where
  "correctMessage generateQuietPrompt st txt a =
     (case generateQuietPrompt (correctionPrompt txt a) of
        Returned corrected \<Rightarrow>
          if corrected \<noteq> [] \<and> trim corrected \<noteq> [] \<and> corrected \<noteq> txt
          then (trim corrected, st)
          else (txt, st)
      | Raised \<Rightarrow> fallbackCorrection st txt a)"

section \<open>Reporter\<close>







section \<open>Inputs of the examples\<close>

definition strictSettings :: settings where
  "strictSettings = defaultSettings\<lparr>strictMode := True\<rparr>"

definition fortuneText :: string where
  "fortuneText = ''Fortune cookie.'' @ CHR 0x0A # ''B. It was just a fortune cookie.''"

definition fortuneState :: rx_state where
  "fortuneState =
     initialState(0 := 0, Suc 0 := 0, Suc (Suc 0) := 0, Suc (Suc (Suc 0)) := 0,
       Suc (Suc (Suc (Suc 0))) := 0, Suc (Suc (Suc (Suc (Suc 0)))) := 0,
       Suc (Suc (Suc (Suc (Suc (Suc 0))))) := length ''Fortune cookie'')"

section \<open>Properties of the reporter\<close>









section \<open>Evaluation on concrete texts\<close>

lemma initialState_apply: "initialState k = 0"
  by (simp add: initialState_def)

lemmas char_tables = asciiLower_def asciiUpper_def asciiDigits_def latinLower_def latinUpper_def

lemma canonicalize_simps:
  "canonicalize (CHR ''a'') = CHR ''A''" "canonicalize (CHR ''b'') = CHR ''B''" "canonicalize (CHR ''c'') = CHR ''C''"
  "canonicalize (CHR ''d'') = CHR ''D''" "canonicalize (CHR ''e'') = CHR ''E''" "canonicalize (CHR ''f'') = CHR ''F''"
  "canonicalize (CHR ''g'') = CHR ''G''" "canonicalize (CHR ''h'') = CHR ''H''" "canonicalize (CHR ''i'') = CHR ''I''"
  "canonicalize (CHR ''j'') = CHR ''J''" "canonicalize (CHR ''k'') = CHR ''K''" "canonicalize (CHR ''l'') = CHR ''L''"
  "canonicalize (CHR ''m'') = CHR ''M''" "canonicalize (CHR ''n'') = CHR ''N''" "canonicalize (CHR ''o'') = CHR ''O''"
  "canonicalize (CHR ''p'') = CHR ''P''" "canonicalize (CHR ''q'') = CHR ''Q''" "canonicalize (CHR ''r'') = CHR ''R''"
  "canonicalize (CHR ''s'') = CHR ''S''" "canonicalize (CHR ''t'') = CHR ''T''" "canonicalize (CHR ''u'') = CHR ''U''"
  "canonicalize (CHR ''v'') = CHR ''V''" "canonicalize (CHR ''w'') = CHR ''W''" "canonicalize (CHR ''x'') = CHR ''X''"
  "canonicalize (CHR ''y'') = CHR ''Y''" "canonicalize (CHR ''z'') = CHR ''Z''" "canonicalize (CHR ''A'') = CHR ''A''"
  "canonicalize (CHR ''B'') = CHR ''B''" "canonicalize (CHR ''C'') = CHR ''C''" "canonicalize (CHR ''D'') = CHR ''D''"
  "canonicalize (CHR ''E'') = CHR ''E''" "canonicalize (CHR ''F'') = CHR ''F''" "canonicalize (CHR ''G'') = CHR ''G''"
  "canonicalize (CHR ''H'') = CHR ''H''" "canonicalize (CHR ''I'') = CHR ''I''" "canonicalize (CHR ''J'') = CHR ''J''"
  "canonicalize (CHR ''K'') = CHR ''K''" "canonicalize (CHR ''L'') = CHR ''L''" "canonicalize (CHR ''M'') = CHR ''M''"
  "canonicalize (CHR ''N'') = CHR ''N''" "canonicalize (CHR ''O'') = CHR ''O''" "canonicalize (CHR ''P'') = CHR ''P''"
  "canonicalize (CHR ''Q'') = CHR ''Q''" "canonicalize (CHR ''R'') = CHR ''R''" "canonicalize (CHR ''S'') = CHR ''S''"
  "canonicalize (CHR ''T'') = CHR ''T''" "canonicalize (CHR ''U'') = CHR ''U''" "canonicalize (CHR ''V'') = CHR ''V''"
  "canonicalize (CHR ''W'') = CHR ''W''" "canonicalize (CHR ''X'') = CHR ''X''" "canonicalize (CHR ''Y'') = CHR ''Y''"
  "canonicalize (CHR ''Z'') = CHR ''Z''" "canonicalize (CHR '' '') = CHR '' ''" "canonicalize (CHR ''.'') = CHR ''.''"
  "canonicalize (CHR '','') = CHR '',''" "canonicalize (CHR ''!'') = CHR ''!''" "canonicalize (CHR ''?'') = CHR ''?''"
  "canonicalize (CHR ''-'') = CHR ''-''" "canonicalize (CHR ''['') = CHR ''[''" "canonicalize (CHR '']'') = CHR '']''"
  "canonicalize (CHR '':'') = CHR '':''" "canonicalize (CHR 0x27) = CHR 0x27" "canonicalize (CHR 0x0A) = CHR 0x0A"
  "canonicalize (CHR 0x22) = CHR 0x22"
  by (simp_all add: canonicalize_def char_tables)

lemma toLowerChar_simps:
  "toLowerChar (CHR ''a'') = CHR ''a''" "toLowerChar (CHR ''b'') = CHR ''b''" "toLowerChar (CHR ''c'') = CHR ''c''"
  "toLowerChar (CHR ''d'') = CHR ''d''" "toLowerChar (CHR ''e'') = CHR ''e''" "toLowerChar (CHR ''f'') = CHR ''f''"
  "toLowerChar (CHR ''g'') = CHR ''g''" "toLowerChar (CHR ''h'') = CHR ''h''" "toLowerChar (CHR ''i'') = CHR ''i''"
  "toLowerChar (CHR ''j'') = CHR ''j''" "toLowerChar (CHR ''k'') = CHR ''k''" "toLowerChar (CHR ''l'') = CHR ''l''"
  "toLowerChar (CHR ''m'') = CHR ''m''" "toLowerChar (CHR ''n'') = CHR ''n''" "toLowerChar (CHR ''o'') = CHR ''o''"
  "toLowerChar (CHR ''p'') = CHR ''p''" "toLowerChar (CHR ''q'') = CHR ''q''" "toLowerChar (CHR ''r'') = CHR ''r''"
  "toLowerChar (CHR ''s'') = CHR ''s''" "toLowerChar (CHR ''t'') = CHR ''t''" "toLowerChar (CHR ''u'') = CHR ''u''"
  "toLowerChar (CHR ''v'') = CHR ''v''" "toLowerChar (CHR ''w'') = CHR ''w''" "toLowerChar (CHR ''x'') = CHR ''x''"
  "toLowerChar (CHR ''y'') = CHR ''y''" "toLowerChar (CHR ''z'') = CHR ''z''" "toLowerChar (CHR ''A'') = CHR ''a''"
  "toLowerChar (CHR ''B'') = CHR ''b''" "toLowerChar (CHR ''C'') = CHR ''c''" "toLowerChar (CHR ''D'') = CHR ''d''"
  "toLowerChar (CHR ''E'') = CHR ''e''" "toLowerChar (CHR ''F'') = CHR ''f''" "toLowerChar (CHR ''G'') = CHR ''g''"
  "toLowerChar (CHR ''H'') = CHR ''h''" "toLowerChar (CHR ''I'') = CHR ''i''" "toLowerChar (CHR ''J'') = CHR ''j''"
  "toLowerChar (CHR ''K'') = CHR ''k''" "toLowerChar (CHR ''L'') = CHR ''l''" "toLowerChar (CHR ''M'') = CHR ''m''"
  "toLowerChar (CHR ''N'') = CHR ''n''" "toLowerChar (CHR ''O'') = CHR ''o''" "toLowerChar (CHR ''P'') = CHR ''p''"
  "toLowerChar (CHR ''Q'') = CHR ''q''" "toLowerChar (CHR ''R'') = CHR ''r''" "toLowerChar (CHR ''S'') = CHR ''s''"
  "toLowerChar (CHR ''T'') = CHR ''t''" "toLowerChar (CHR ''U'') = CHR ''u''" "toLowerChar (CHR ''V'') = CHR ''v''"
  "toLowerChar (CHR ''W'') = CHR ''w''" "toLowerChar (CHR ''X'') = CHR ''x''" "toLowerChar (CHR ''Y'') = CHR ''y''"
  "toLowerChar (CHR ''Z'') = CHR ''z''" "toLowerChar (CHR '' '') = CHR '' ''" "toLowerChar (CHR ''.'') = CHR ''.''"
  "toLowerChar (CHR '','') = CHR '',''" "toLowerChar (CHR ''!'') = CHR ''!''" "toLowerChar (CHR ''?'') = CHR ''?''"
  "toLowerChar (CHR ''-'') = CHR ''-''" "toLowerChar (CHR ''['') = CHR ''[''" "toLowerChar (CHR '']'') = CHR '']''"
  "toLowerChar (CHR '':'') = CHR '':''" "toLowerChar (CHR 0x27) = CHR 0x27" "toLowerChar (CHR 0x0A) = CHR 0x0A"
  "toLowerChar (CHR 0x22) = CHR 0x22"
  by (simp_all add: toLowerChar_def char_tables)

lemma isWordChar_simps:
  "isWordChar (CHR ''a'') = True" "isWordChar (CHR ''b'') = True" "isWordChar (CHR ''c'') = True"
  "isWordChar (CHR ''d'') = True" "isWordChar (CHR ''e'') = True" "isWordChar (CHR ''f'') = True"
  "isWordChar (CHR ''g'') = True" "isWordChar (CHR ''h'') = True" "isWordChar (CHR ''i'') = True"
  "isWordChar (CHR ''j'') = True" "isWordChar (CHR ''k'') = True" "isWordChar (CHR ''l'') = True"
  "isWordChar (CHR ''m'') = True" "isWordChar (CHR ''n'') = True" "isWordChar (CHR ''o'') = True"
  "isWordChar (CHR ''p'') = True" "isWordChar (CHR ''q'') = True" "isWordChar (CHR ''r'') = True"
  "isWordChar (CHR ''s'') = True" "isWordChar (CHR ''t'') = True" "isWordChar (CHR ''u'') = True"
  "isWordChar (CHR ''v'') = True" "isWordChar (CHR ''w'') = True" "isWordChar (CHR ''x'') = True"
  "isWordChar (CHR ''y'') = True" "isWordChar (CHR ''z'') = True" "isWordChar (CHR ''A'') = True"
  "isWordChar (CHR ''B'') = True" "isWordChar (CHR ''C'') = True" "isWordChar (CHR ''D'') = True"
  "isWordChar (CHR ''E'') = True" "isWordChar (CHR ''F'') = True" "isWordChar (CHR ''G'') = True"
  "isWordChar (CHR ''H'') = True" "isWordChar (CHR ''I'') = True" "isWordChar (CHR ''J'') = True"
  "isWordChar (CHR ''K'') = True" "isWordChar (CHR ''L'') = True" "isWordChar (CHR ''M'') = True"
  "isWordChar (CHR ''N'') = True" "isWordChar (CHR ''O'') = True" "isWordChar (CHR ''P'') = True"
  "isWordChar (CHR ''Q'') = True" "isWordChar (CHR ''R'') = True" "isWordChar (CHR ''S'') = True"
  "isWordChar (CHR ''T'') = True" "isWordChar (CHR ''U'') = True" "isWordChar (CHR ''V'') = True"
  "isWordChar (CHR ''W'') = True" "isWordChar (CHR ''X'') = True" "isWordChar (CHR ''Y'') = True"
  "isWordChar (CHR ''Z'') = True" "isWordChar (CHR '' '') = False" "isWordChar (CHR ''.'') = False"
  "isWordChar (CHR '','') = False" "isWordChar (CHR ''!'') = False" "isWordChar (CHR ''?'') = False"
  "isWordChar (CHR ''-'') = False" "isWordChar (CHR ''['') = False" "isWordChar (CHR '']'') = False"
  "isWordChar (CHR '':'') = False" "isWordChar (CHR 0x27) = False" "isWordChar (CHR 0x0A) = False"
  "isWordChar (CHR 0x22) = False"
  by (simp_all add: isWordChar_def char_tables)

lemmas regex_eval =
  matches.simps step_chr_def wordBefore_def wordAfter_def plus_def dot_def lits_def
  canonicalize_simps isWordChar_simps isLineTerminator_def isWhiteSpace_def isTerminator_def
  match_all_def match_all_from.simps matchedText_def regexp_test_def regexp_exec_def
  test_plain_def split_def split_from.simps

lemmas pattern_defs =
  FORBIDDEN_PATTERNS_def EMOTION_LABELS_def GOOD_ENDING_TYPES_def sentencePattern_def
  dialoguePattern_def formalPattern_def exemptPattern_def spacesPattern_def

lemmas analyze_eval =
  analyzeMessage_def getLastSentences_def matchSentences_def checkSceneEnding_def
  hasGoodEnding_def toLowerCase_def toLowerChar_simps checkEmotionLabels_def checkDialogue_def
  defaultSettings_def initialState_apply

lemmas correct_eval =
  fallbackCorrection_def fixSceneEnding_def dropProblematic_def markEmotions_def replace_def
  marker_def matchSentences_def initialState_apply

lemma first_pass_one_day:
  "analyzeMessage defaultSettings initialState ''One day at a time.'' =
     (\<lparr>violations = [forbiddenViolation ''one day at a time'' ''One day at a time.''],
       lastSentences = [''One day at a time.''],
       wordCount = 5\<rparr>,
      initialState(0 := length ''One day at a time'', Suc 0 := 0, Suc (Suc 0) := 0,
               Suc (Suc (Suc 0)) := 0, Suc (Suc (Suc (Suc 0))) := 0,
               Suc (Suc (Suc (Suc (Suc 0)))) := 0, Suc (Suc (Suc (Suc (Suc (Suc 0))))) := 0))"
  by (simp add: analyze_eval regex_eval pattern_defs)

lemma second_pass_one_day:
  "fst (analyzeMessage defaultSettings
     (initialState(0 := length ''One day at a time'', Suc 0 := 0, Suc (Suc 0) := 0,
               Suc (Suc (Suc 0)) := 0, Suc (Suc (Suc (Suc 0))) := 0,
               Suc (Suc (Suc (Suc (Suc 0)))) := 0, Suc (Suc (Suc (Suc (Suc (Suc 0))))) := 0))
     ''One day at a time.'') =
     \<lparr>violations = [], lastSentences = [''One day at a time.''], wordCount = 5\<rparr>"
  by (simp add: analyze_eval regex_eval pattern_defs)

text \<open>
  Claim C3. The analysis carries state from one invocation to the next: from the initial
  state of the module and under the default settings, the first analysis of
  \<open>One day at a time.\<close> reports the forbidden ending, and the second analysis of the same
  text reports no violation, because the first \<open>test\<close> left \<open>lastIndex\<close> at 17.
\<close>

theorem analyzeMessage_repeated_differs:
  "violations (fst (analyzeMessage defaultSettings initialState ''One day at a time.''))
     = [forbiddenViolation ''one day at a time'' ''One day at a time.''] \<and>
   violations (fst (analyzeMessage defaultSettings
                      (snd (analyzeMessage defaultSettings initialState ''One day at a time.''))
                      ''One day at a time.''))
     = []"
  by (simp only: first_pass_one_day second_pass_one_day fst_conv snd_conv
        analysis.select_convs simp_thms)

lemma analyze_angry_twice:
  "analyzeMessage defaultSettings initialState ''I felt angry. I felt angry.'' =
     (\<lparr>violations = [emotionViolation ''I felt angry'', emotionViolation ''I felt angry''],
       lastSentences = [''I felt angry.'', '' I felt angry.''],
       wordCount = 6\<rparr>,
      initialState(0 := 0, Suc 0 := 0, Suc (Suc 0) := 0,
               Suc (Suc (Suc 0)) := 0, Suc (Suc (Suc (Suc 0))) := 0,
               Suc (Suc (Suc (Suc (Suc 0)))) := 0, Suc (Suc (Suc (Suc (Suc (Suc 0))))) := 0))"
  by (simp add: analyze_eval regex_eval pattern_defs)

text \<open>
  Claim C4. With two violations whose matched text is the same, the second replacement
  hits the first occurrence again, which is the one inside the marker the first
  replacement inserted: the first occurrence is wrapped twice and the second occurrence is
  left unmarked.
\<close>

theorem fallbackCorrection_marks_first_occurrence_twice:
  "fst (fallbackCorrection
          (snd (analyzeMessage defaultSettings initialState ''I felt angry. I felt angry.''))
          ''I felt angry. I felt angry.''
          (fst (analyzeMessage defaultSettings initialState ''I felt angry. I felt angry.'')))
     = ''[SHOW-DON'T-TELL: [SHOW-DON'T-TELL: I felt angry]]. I felt angry.''"
  by (simp add: analyze_angry_twice correct_eval emotionViolation_def)






section \<open>Properties of the matcher\<close>

lemma step_chr_cursor:
  "z' \<in> set (step_chr P z) \<Longrightarrow> \<exists>w. snd z = w @ snd z' \<and> fst z' = rev w @ fst z"
  by (cases z) (auto simp: step_chr_def split: list.splits if_splits)

text \<open>A match only moves the cursor forward over the subject.\<close>

lemma matches_cursor:
  "z' \<in> set (matches ic r z) \<Longrightarrow> \<exists>w. snd z = w @ snd z' \<and> fst z' = rev w @ fst z"
proof (induction ic r z arbitrary: z' rule: matches.induct)
  case (1 ic z)
  then show ?case by (simp add: matches.simps)
next
  case (2 ic a z)
  then show ?case using step_chr_cursor by (simp add: matches.simps)
next
  case (3 ic P z)
  then show ?case using step_chr_cursor by (simp add: matches.simps)
next
  case (4 ic a b z)
  from "4.prems" obtain y where y: "y \<in> set (matches ic a z)" and z': "z' \<in> set (matches ic b y)"
    by (auto simp: matches.simps)
  from "4.IH"(1) [OF y] obtain w1 where w1: "snd z = w1 @ snd y" "fst y = rev w1 @ fst z"
    by blast
  from "4.IH"(2) [OF y z'] obtain w2 where w2: "snd y = w2 @ snd z'" "fst z' = rev w2 @ fst y"
    by blast
  from w1 w2 have "snd z = (w1 @ w2) @ snd z' \<and> fst z' = rev (w1 @ w2) @ fst z" by simp
  then show ?case by blast
next
  case (5 ic a b z)
  from "5.prems" have "z' \<in> set (matches ic a z) \<or> z' \<in> set (matches ic b z)"
    by (simp add: matches.simps)
  with "5.IH" show ?case by blast
next
  case (6 ic a z)
  from "6.prems" consider "z' = z"
    | y where "y \<in> set (matches ic a z)" "length (snd y) < length (snd z)"
        "z' \<in> set (matches ic (Star a) y)"
    by (subst (asm) matches.simps) (auto split: if_splits)
  then show ?case
  proof cases
    case 1
    then show ?thesis by simp
  next
    case 2
    from "6.IH"(1) [OF 2(1)] obtain w1 where w1: "snd z = w1 @ snd y" "fst y = rev w1 @ fst z"
      by blast
    from "6.IH"(2) [OF 2(1) 2(2) 2(3)] obtain w2
      where w2: "snd y = w2 @ snd z'" "fst z' = rev w2 @ fst y"
      by blast
    from w1 w2 have "snd z = (w1 @ w2) @ snd z' \<and> fst z' = rev (w1 @ w2) @ fst z" by simp
    then show ?thesis by blast
  qed
next
  case (7 ic z)
  then show ?case by (simp add: matches.simps split: if_splits)
qed

lemma matches_set: "z' \<in> set (matches ic r z) \<Longrightarrow> set (snd z') \<subseteq> set (snd z)"
  using matches_cursor [of z' ic r z] by auto

text \<open>Where no cursor of the subject admits a match, the search fails.\<close>

lemma exec_None:
  "(\<And>p' s'. set s' \<subseteq> set s \<Longrightarrow> matches ic r (p', s') = []) \<Longrightarrow> exec ic r p s = None"
proof (induction s arbitrary: p)
  case Nil
  then show ?case by simp
next
  case (Cons c s)
  have "matches ic r (p, c # s) = []" by (rule Cons.prems) simp
  moreover have "exec ic r (c # p) s = None"
  proof (rule Cons.IH)
    fix p' s'
    assume "set s' \<subseteq> set s"
    then have "set s' \<subseteq> set (c # s)" by auto
    then show "matches ic r (p', s') = []" by (rule Cons.prems)
  qed
  ultimately show ?case by simp
qed

lemma match_all_from_None: "exec ic r p s = None \<Longrightarrow> match_all_from ic r p s = []"
  by (subst match_all_from.simps) simp

lemma match_all_Nil:
  "(\<And>p' s'. set s' \<subseteq> set s \<Longrightarrow> matches ic r (p', s') = []) \<Longrightarrow> match_all ic r s = []"
  by (simp add: match_all_def match_all_from_None exec_None)

lemma regexp_test_empty:
  "matches ic r ([], []) = [] \<Longrightarrow> regexp_test ic r lastIndex [] = (False, 0)"
  by (simp add: regexp_test_def regexp_exec_def)

text \<open>The sentence pattern needs a terminator.\<close>

lemma plus_Cls_Nil: "s = [] \<or> \<not> P (hd s) \<Longrightarrow> matches ic (plus (Cls P)) (p, s) = []"
  by (cases s) (auto simp: plus_def matches.simps step_chr_def)

lemma sentence_no_match:
  assumes "\<forall>c\<in>set s. \<not> isTerminator c"
  shows "matches False sentencePattern (p, s) = []"
proof -
  have "matches False (plus (Cls isTerminator)) z' = []"
    if "z' \<in> set (matches False (plus (Cls (\<lambda>c. \<not> isTerminator c))) (p, s))" for z'
  proof -
    from matches_set [OF that] assms have "\<forall>c\<in>set (snd z'). \<not> isTerminator c" by auto
    then have "snd z' = [] \<or> \<not> isTerminator (hd (snd z'))" by (cases "snd z'") auto
    then have "matches False (plus (Cls isTerminator)) (fst z', snd z') = []"
      by (rule plus_Cls_Nil)
    then show ?thesis by simp
  qed
  then show ?thesis by (simp add: sentencePattern_def matches.simps(4))
qed

lemma matchSentences_Nil: "\<forall>c\<in>set txt. \<not> isTerminator c \<Longrightarrow> matchSentences txt = []"
  unfolding matchSentences_def
  by (rule match_all_Nil) (auto intro: sentence_no_match)

section \<open>Properties of the analyzer\<close>

lemma forbidden_not_empty: "\<forall>p\<in>set FORBIDDEN_PATTERNS. matches True (snd p) ([], []) = []"
  by (simp add: FORBIDDEN_PATTERNS_def matches.simps step_chr_def lits_def plus_def)

lemma forbiddenLoop_empty:
  "\<forall>p\<in>set ps. matches True (snd p) ([], []) = [] \<Longrightarrow> fst (forbiddenLoop k ps [] st) = []"
  by (induction ps arbitrary: k st) (simp_all add: regexp_test_empty case_prod_unfold)

lemma hasGoodEnding_empty: "\<not> hasGoodEnding []"
  by (simp add: hasGoodEnding_def GOOD_ENDING_TYPES_def toLowerCase_def)

lemma checkSceneEnding_Nil:
  "fst (checkSceneEnding cfg st []) = (if strictMode cfg then [abstractViolation []] else [])"
  using forbiddenLoop_empty [OF forbidden_not_empty, of 0 st]
  by (simp add: checkSceneEnding_def hasGoodEnding_empty case_prod_unfold)

lemma forbiddenLoop_kind:
  "v \<in> set (fst (forbiddenLoop k ps e st)) \<Longrightarrow> vtype v = scene_ending \<and> severity v = high"
  by (induction ps arbitrary: k st)
     (auto simp: forbiddenViolation_def case_prod_unfold split: if_splits)

lemma checkSceneEnding_kind:
  "v \<in> set (fst (checkSceneEnding cfg st ss)) \<Longrightarrow> vtype v = scene_ending"
  using forbiddenLoop_kind [of v 0 FORBIDDEN_PATTERNS "join '' '' ss" st]
  by (auto simp: checkSceneEnding_def abstractViolation_def case_prod_unfold Let_def
        split: if_splits)

lemma checkEmotionLabels_kind:
  "v \<in> set (checkEmotionLabels txt) \<Longrightarrow> vtype v = show_dont_tell \<and> severity v = medium"
  by (auto simp: checkEmotionLabels_def emotionViolation_def)

lemma checkDialogue_kind:
  "v \<in> set (checkDialogue txt) \<Longrightarrow> vtype v = dialogue \<and> severity v = low"
  by (auto simp: checkDialogue_def dialogueViolation_def Let_def split: if_splits)

lemma getLastSentences_Nil: "matchSentences txt = [] \<Longrightarrow> getLastSentences txt n = []"
  by (simp add: getLastSentences_def)

text \<open>
  Claim C9. For a text without \<open>.\<close>, \<open>!\<close> and \<open>?\<close> the ending window is empty, whatever
  the settings and the state of the patterns. No violation of the analysis is of high
  severity. With the scene-ending check and strict mode both on, the scene-ending
  violations are exactly one, of medium severity and without a pattern, for the empty
  ending text; otherwise there is no scene-ending violation.
\<close>

theorem no_terminator_empty_window:
  assumes "\<forall>c\<in>set txt. \<not> isTerminator c"
  shows "lastSentences (fst (analyzeMessage cfg st txt)) = [] \<and>
         filter (\<lambda>v. severity v = high) (violations (fst (analyzeMessage cfg st txt))) = [] \<and>
         filter (\<lambda>v. vtype v = scene_ending) (violations (fst (analyzeMessage cfg st txt)))
           = (if sceneEndings (validationRules cfg) \<and> strictMode cfg
              then [abstractViolation []] else [])"
proof -
  have win: "getLastSentences txt 3 = []"
    using assms by (simp add: getLastSentences_Nil matchSentences_Nil)
  have emo_high: "filter (\<lambda>v. severity v = high) (checkEmotionLabels txt) = []"
    by (auto simp: filter_empty_conv dest: checkEmotionLabels_kind)
  have dia_high: "filter (\<lambda>v. severity v = high) (checkDialogue txt) = []"
    by (auto simp: filter_empty_conv dest: checkDialogue_kind)
  have emo_kind: "filter (\<lambda>v. vtype v = scene_ending) (checkEmotionLabels txt) = []"
    by (auto simp: filter_empty_conv dest: checkEmotionLabels_kind)
  have dia_kind: "filter (\<lambda>v. vtype v = scene_ending) (checkDialogue txt) = []"
    by (auto simp: filter_empty_conv dest: checkDialogue_kind)
  show ?thesis
    by (simp add: analyzeMessage_def win checkSceneEnding_Nil emo_high dia_high emo_kind dia_kind
          abstractViolation_def)
qed

lemma whitespace_canonicalize: "isWhiteSpace c \<Longrightarrow> canonicalize c = c"
  unfolding isWhiteSpace_def
  by (elim disjE) (simp_all add: canonicalize_def char_tables)

lemma whitespace_not_letter:
  assumes "isWhiteSpace c"
  shows "CHR ''I'' \<noteq> c" "CHR ''H'' \<noteq> c" "CHR ''S'' \<noteq> c" "CHR ''T'' \<noteq> c" "CHR 0x22 \<noteq> c"
    "\<not> isTerminator c"
  using assms by (auto simp: isWhiteSpace_def isTerminator_def)

lemma emotion_no_whitespace:
  assumes "r \<in> set EMOTION_LABELS" and "s = [] \<or> isWhiteSpace (hd s)"
  shows "matches True r (p, s) = []"
proof (cases s)
  case Nil
  with assms(1) show ?thesis
    by (auto simp: EMOTION_LABELS_def matches.simps step_chr_def lits_def)
next
  case (Cons c s')
  with assms(2) have "isWhiteSpace c" by simp
  with assms(1) Cons show ?thesis
    by (auto simp: EMOTION_LABELS_def matches.simps step_chr_def lits_def canonicalize_simps
          whitespace_canonicalize whitespace_not_letter)
qed

lemma dialogue_needs_quote:
  assumes "s = [] \<or> hd s \<noteq> CHR 0x22"
  shows "matches False dialoguePattern (p, s) = []"
  using assms by (cases s) (auto simp: dialoguePattern_def matches.simps step_chr_def)

lemma whitespace_suffix:
  assumes "\<forall>c\<in>set txt. isWhiteSpace c" and "set s \<subseteq> set txt"
  shows "s = [] \<or> isWhiteSpace (hd s)"
  using assms by (cases s) auto

lemma checkEmotionLabels_whitespace:
  assumes "\<forall>c\<in>set txt. isWhiteSpace c"
  shows "checkEmotionLabels txt = []"
proof -
  have "match_all True r txt = []" if "r \<in> set EMOTION_LABELS" for r
    by (rule match_all_Nil) (rule emotion_no_whitespace [OF that whitespace_suffix [OF assms]])
  then show ?thesis by (simp add: checkEmotionLabels_def)
qed

lemma checkDialogue_whitespace:
  assumes "\<forall>c\<in>set txt. isWhiteSpace c"
  shows "checkDialogue txt = []"
proof -
  have "match_all False dialoguePattern txt = []"
  proof (rule match_all_Nil)
    fix p' s'
    assume "set s' \<subseteq> set txt"
    from whitespace_suffix [OF assms this] have "s' = [] \<or> hd s' \<noteq> CHR 0x22"
      using whitespace_not_letter(5) [of "hd s'"] by (cases "s' = []") simp_all
    then show "matches False dialoguePattern (p', s') = []" by (rule dialogue_needs_quote)
  qed
  then show ?thesis by (simp add: checkDialogue_def)
qed

theorem analyzeMessage_empty_counterexample:
  "wordCount (fst (analyzeMessage defaultSettings initialState [])) = 1 \<and>
   violations (fst (analyzeMessage strictSettings initialState [])) = [abstractViolation []]"
  by (simp add: strictSettings_def analyze_eval regex_eval pattern_defs)

text \<open>
  Claim C2, as amended. For every text that is empty or consists of white space only,
  under every configuration and whatever the state of the patterns, the analysis returns
  a result: its ending window is empty, and it holds no violation, except that with the
  scene-ending check and strict mode both on it holds exactly one violation, the
  medium-severity scene-ending violation for the empty ending text.
\<close>

theorem whitespace_only_analysis:
  assumes "\<forall>c\<in>set txt. isWhiteSpace c"
  shows "lastSentences (fst (analyzeMessage cfg st txt)) = [] \<and>
         violations (fst (analyzeMessage cfg st txt))
           = (if sceneEndings (validationRules cfg) \<and> strictMode cfg
              then [abstractViolation []] else [])"
proof -
  from assms have "\<forall>c\<in>set txt. \<not> isTerminator c"
    using whitespace_not_letter(6) by blast
  then have win: "getLastSentences txt 3 = []"
    by (simp add: getLastSentences_Nil matchSentences_Nil)
  show ?thesis
    by (simp add: analyzeMessage_def win checkSceneEnding_Nil
          checkEmotionLabels_whitespace [OF assms] checkDialogue_whitespace [OF assms])
qed

theorem whitespace_only_analysis_witness:
  "violations (fst (analyzeMessage strictSettings initialState [CHR '' '', CHR 0x0A]))
     = [abstractViolation []] \<and>
   violations (fst (analyzeMessage defaultSettings initialState [CHR '' '', CHR 0x0A])) = [] \<and>
   lastSentences (fst (analyzeMessage defaultSettings initialState [CHR '' '', CHR 0x0A])) = []"
  using whitespace_only_analysis [of "[CHR '' '', CHR 0x0A]" strictSettings initialState]
        whitespace_only_analysis [of "[CHR '' '', CHR 0x0A]" defaultSettings initialState]
  by (simp add: isWhiteSpace_def strictSettings_def defaultSettings_def)

theorem no_terminator_empty_window_witness:
  "lastSentences (fst (analyzeMessage strictSettings initialState ''one day at a time'')) = [] \<and>
   filter (\<lambda>v. severity v = high)
     (violations (fst (analyzeMessage strictSettings initialState ''one day at a time''))) = [] \<and>
   filter (\<lambda>v. vtype v = scene_ending)
     (violations (fst (analyzeMessage strictSettings initialState ''one day at a time'')))
     = [abstractViolation []]"
  using no_terminator_empty_window [of "''one day at a time''" strictSettings initialState]
  by (simp add: isTerminator_def strictSettings_def defaultSettings_def)

section \<open>Properties of the corrector\<close>

text \<open>
  Claim C6. The fallback correction returns the text unchanged, and leaves the state of
  the patterns alone, when the analysis of the text holds no violation; more generally
  it returns the text unchanged whenever no violation is a scene-ending or a
  show-don't-tell violation, the two kinds it edits.
\<close>

theorem fallbackCorrection_identity:
  "(violations (fst (analyzeMessage cfg st0 txt)) = []
      \<longrightarrow> fallbackCorrection st txt (fst (analyzeMessage cfg st0 txt)) = (txt, st)) \<and>
   ((\<forall>v\<in>set (violations a). vtype v = dialogue) \<longrightarrow> fallbackCorrection st txt a = (txt, st))"
proof (intro conjI impI)
  assume "violations (fst (analyzeMessage cfg st0 txt)) = []"
  then show "fallbackCorrection st txt (fst (analyzeMessage cfg st0 txt)) = (txt, st)"
    by (simp add: fallbackCorrection_def fixSceneEnding_def markEmotions_def)
next
  assume only: "\<forall>v\<in>set (violations a). vtype v = dialogue"
  then have "filter (\<lambda>v. vtype v = scene_ending) (violations a) = []"
    and "filter (\<lambda>v. vtype v = show_dont_tell) (violations a) = []"
    by (auto simp: filter_empty_conv)
  then show "fallbackCorrection st txt a = (txt, st)"
    by (simp add: fallbackCorrection_def fixSceneEnding_def markEmotions_def)
qed

lemma analyze_hello:
  "fst (analyzeMessage defaultSettings initialState ''Hello.'') =
     \<lparr>violations = [], lastSentences = [''Hello.''], wordCount = 1\<rparr>"
  by (simp add: analyze_eval regex_eval pattern_defs)

theorem fallbackCorrection_identity_witness:
  "violations (fst (analyzeMessage defaultSettings initialState ''Hello.'')) = [] \<and>
   fallbackCorrection initialState ''Hello.''
     (fst (analyzeMessage defaultSettings initialState ''Hello.'')) = (''Hello.'', initialState) \<and>
   fallbackCorrection initialState ''Hello.''
     \<lparr>violations = [dialogueViolation ''I am here''], lastSentences = [''Hello.''],
       wordCount = 1\<rparr> = (''Hello.'', initialState)"
  using fallbackCorrection_identity
          [of defaultSettings initialState "''Hello.''" initialState
              "\<lparr>violations = [dialogueViolation ''I am here''], lastSentences = [''Hello.''],
                 wordCount = 1\<rparr>"]
  by (simp add: analyze_hello dialogueViolation_def)

text \<open>A search that succeeds from a later cursor succeeds from an earlier one.\<close>

lemma exec_later: "exec ic r (rev a @ p) b \<noteq> None \<Longrightarrow> exec ic r p (a @ b) \<noteq> None"
proof (induction a arbitrary: p)
  case Nil
  then show ?case by simp
next
  case (Cons x a)
  from Cons.prems have "exec ic r (rev a @ x # p) b \<noteq> None" by simp
  from Cons.IH [OF this] have "exec ic r (x # p) (a @ b) \<noteq> None" .
  then show ?case by (cases "matches ic r (p, x # a @ b)") simp_all
qed

lemma regexp_test_sound: "fst (regexp_test ic r lastIndex s) \<Longrightarrow> test_plain ic r s"
proof -
  assume t: "fst (regexp_test ic r lastIndex s)"
  then have le: "lastIndex \<le> length s"
    by (simp add: regexp_test_def regexp_exec_def split: if_splits)
  with t have "exec ic r (rev (take lastIndex s) @ []) (drop lastIndex s) \<noteq> None"
    by (auto simp: regexp_test_def regexp_exec_def split: option.splits)
  from exec_later [OF this] show ?thesis by (simp add: test_plain_def)
qed

lemma someForbidden_sound:
  "fst (someForbidden k ps s st) \<Longrightarrow> \<exists>p\<in>set ps. test_plain True (snd p) s"
proof (induction ps arbitrary: k st)
  case Nil
  then show ?case by simp
next
  case (Cons p ps)
  show ?case
  proof (cases "fst (regexp_test True (snd p) (st k) s)")
    case True
    then show ?thesis using regexp_test_sound by auto
  next
    case False
    with Cons.prems
    have "fst (someForbidden (Suc k) ps s (st(k := snd (regexp_test True (snd p) (st k) s))))"
      by (simp add: case_prod_unfold)
    from Cons.IH [OF this] show ?thesis by auto
  qed
qed

lemma someForbidden_matchesForbidden:
  "fst (someForbidden 0 FORBIDDEN_PATTERNS s st) \<Longrightarrow> matchesForbidden s"
  using someForbidden_sound [of 0 FORBIDDEN_PATTERNS s st]
  by (simp add: matchesForbidden_def list_ex_iff)

lemma dropProblematic_bounds:
  "(length ss \<le> 2 \<longrightarrow> fst (dropProblematic st ss) = None) \<and>
   (fst (dropProblematic st ss) = Some kept \<longrightarrow>
      2 < length ss \<and> matchesForbidden (last ss) \<and> length ss - length kept \<le> 2 \<and>
      (kept = butlast ss \<or>
       kept = butlast (butlast ss) \<and> matchesForbidden (last (butlast ss)))) \<and>
   (length (matchSentences txt) \<le> 2 \<longrightarrow> fixSceneEnding st txt vs = (txt, st))"
proof (intro conjI impI)
  assume "length ss \<le> 2"
  then show "fst (dropProblematic st ss) = None" by (simp add: dropProblematic_def)
next
  assume "length (matchSentences txt) \<le> 2"
  then show "fixSceneEnding st txt vs = (txt, st)"
    by (simp add: fixSceneEnding_def dropProblematic_def)
next
  assume kept: "fst (dropProblematic st ss) = Some kept"
  then have long: "2 < length ss"
    by (simp add: dropProblematic_def split: if_splits)
  let ?first = "someForbidden 0 FORBIDDEN_PATTERNS (last ss) st"
  from kept long have first: "fst ?first"
    by (simp add: dropProblematic_def case_prod_unfold split: if_splits)
  let ?second = "someForbidden 0 FORBIDDEN_PATTERNS (last (butlast ss)) (snd ?first)"
  from kept long first
  have k: "kept = (if fst ?second then butlast (butlast ss) else butlast ss)"
    by (simp add: dropProblematic_def case_prod_unfold Let_def)
  show "2 < length ss" by (rule long)
  show "matchesForbidden (last ss)" using first by (rule someForbidden_matchesForbidden)
  show "length ss - length kept \<le> 2" using k by (auto split: if_splits)
  show "kept = butlast ss \<or>
        kept = butlast (butlast ss) \<and> matchesForbidden (last (butlast ss))"
  proof (cases "fst ?second")
    case True
    then have "matchesForbidden (last (butlast ss))" by (rule someForbidden_matchesForbidden)
    with k True show ?thesis by simp
  next
    case False
    with k show ?thesis by simp
  qed
qed

text \<open>
  Claim C5. The scene-ending step of the fallback returns the text as it is, or the
  sentences of the text without the last one, joined, or without the last two, joined:
  it never removes more than two sentences, and only closing ones. It removes the last
  sentence only when the text has more than two sentences and that sentence matches a
  forbidden pattern, and the sentence before it only when that one matches a forbidden
  pattern too. With two sentences or fewer the text is returned as it is and the state
  of the patterns is left alone. When no show-don't-tell violation is marked, this is
  the whole result of the fallback correction.
\<close>

theorem fixSceneEnding_at_most_two:
  "(length (matchSentences txt) \<le> 2 \<longrightarrow> fixSceneEnding st txt vs = (txt, st)) \<and>
   (fst (fixSceneEnding st txt vs) = txt \<or>
    2 < length (matchSentences txt) \<and> matchesForbidden (last (matchSentences txt)) \<and>
    (fst (fixSceneEnding st txt vs) = join '' '' (butlast (matchSentences txt)) \<or>
     fst (fixSceneEnding st txt vs) = join '' '' (butlast (butlast (matchSentences txt))) \<and>
     matchesForbidden (last (butlast (matchSentences txt))))) \<and>
   (filter (\<lambda>v. vtype v = show_dont_tell) (violations a) = [] \<longrightarrow>
      fallbackCorrection st txt a = fixSceneEnding st txt (violations a)) \<and>
   (length ss \<le> 2 \<longrightarrow> fst (dropProblematic st ss) = None) \<and>
   (fst (dropProblematic st ss) = Some kept \<longrightarrow>
      2 < length ss \<and> matchesForbidden (last ss) \<and> length ss - length kept \<le> 2 \<and>
      (kept = butlast ss \<or>
       kept = butlast (butlast ss) \<and> matchesForbidden (last (butlast ss))))"
proof -
  let ?ss = "matchSentences txt"
  have short: "length ?ss \<le> 2 \<longrightarrow> fixSceneEnding st txt vs = (txt, st)"
    by (simp add: fixSceneEnding_def dropProblematic_def)
  have result: "fst (fixSceneEnding st txt vs) = txt \<or>
    2 < length ?ss \<and> matchesForbidden (last ?ss) \<and>
    (fst (fixSceneEnding st txt vs) = join '' '' (butlast ?ss) \<or>
     fst (fixSceneEnding st txt vs) = join '' '' (butlast (butlast ?ss)) \<and>
     matchesForbidden (last (butlast ?ss)))"
  proof (cases "filter (\<lambda>v. vtype v = scene_ending) vs = []")
    case True
    then show ?thesis by (simp add: fixSceneEnding_def)
  next
    case False
    show ?thesis
    proof (cases "fst (dropProblematic st ?ss)")
      case None
      with False have "fst (fixSceneEnding st txt vs) = txt"
        by (simp add: fixSceneEnding_def case_prod_unfold)
      then show ?thesis by simp
    next
      case (Some kept')
      with False have res: "fst (fixSceneEnding st txt vs) = join '' '' kept'"
        by (simp add: fixSceneEnding_def case_prod_unfold)
      from dropProblematic_bounds [of ?ss st kept' "txt" vs] Some
      have "2 < length ?ss" and "matchesForbidden (last ?ss)"
        and "kept' = butlast ?ss \<or>
             kept' = butlast (butlast ?ss) \<and> matchesForbidden (last (butlast ?ss))"
        by simp_all
      with res show ?thesis by auto
    qed
  qed
  have whole: "filter (\<lambda>v. vtype v = show_dont_tell) (violations a) = [] \<longrightarrow>
      fallbackCorrection st txt a = fixSceneEnding st txt (violations a)"
    by (simp add: fallbackCorrection_def markEmotions_def case_prod_unfold)
  from short result whole dropProblematic_bounds [of ss st kept "txt" vs]
  show ?thesis by simp
qed

theorem fixSceneEnding_at_most_two_witness:
  "fixSceneEnding initialState ''A. B.'' [abstractViolation ''A.  B.''] = (''A. B.'', initialState) \<and>
   fst (fixSceneEnding initialState ''A. B. One day at a time.'' [abstractViolation []])
     = ''A.  B.'' \<and>
   matchesForbidden '' One day at a time.'' \<and>
   fst (dropProblematic initialState [''A.'', '' B.'']) = None \<and>
   fst (dropProblematic initialState [''A.'', '' B.'', '' One day at a time.''])
     = Some [''A.'', '' B.'']"
  using fixSceneEnding_at_most_two
          [of "''A. B.''" initialState "[abstractViolation ''A.  B.'']"
              "\<lparr>violations = [], lastSentences = [], wordCount = 0\<rparr>"
              "[''A.'', '' B.'']" "[''A.'', '' B.'']"]
        fixSceneEnding_at_most_two
          [of "''A. B. One day at a time.''" initialState "[abstractViolation []]"
              "\<lparr>violations = [], lastSentences = [], wordCount = 0\<rparr>"
              "[''A.'', '' B.'', '' One day at a time.'']" "[''A.'', '' B.'']"]
  by (simp add: fixSceneEnding_def dropProblematic_def initialState_apply regex_eval
        pattern_defs matchSentences_def abstractViolation_def)

lemma matchStarts_Nil_exec: "matchStarts ic r p s = [] \<Longrightarrow> exec ic r p s = None"
  by (induction s arbitrary: p) (auto split: if_splits)

lemma matchStarts_Nil_later:
  "matchStarts ic r p (w @ s) = [] \<Longrightarrow> matchStarts ic r (rev w @ p) s = []"
  by (induction w arbitrary: p) (auto split: if_splits)

lemma matchStarts_Nil_all:
  "matchStarts ic r p (w @ s) = [] \<Longrightarrow> match_all_from ic r (rev w @ p) s = []"
  by (simp add: matchStarts_Nil_later matchStarts_Nil_exec match_all_from_None)

lemma matchStarts_mem:
  "matches ic r (rev a @ p, b) \<noteq> [] \<Longrightarrow> length p + length a \<in> set (matchStarts ic r p (a @ b))"
proof (induction a arbitrary: p)
  case Nil
  then show ?case by (cases b) simp_all
next
  case (Cons x a)
  from Cons.prems have "matches ic r (rev a @ x # p, b) \<noteq> []" by simp
  from Cons.IH [OF this] show ?case by simp
qed

text \<open>A pattern that matches at one index only has exactly one match, which starts there.\<close>

lemma match_all_from_single:
  "matchStarts ic r p s = [k] \<Longrightarrow>
     \<exists>a b z zs. s = a @ b \<and> k = length p + length a \<and> matches ic r (rev a @ p, b) = z # zs
        \<and> match_all_from ic r p s = [((rev a @ p, b), z)]"
proof (induction s arbitrary: p)
  case Nil
  then obtain z zs where m: "matches ic r (p, []) = z # zs" and k: "k = length p"
    by (cases "matches ic r (p, [])") (auto split: if_splits)
  have "z \<in> set (matches ic r (p, []))" using m by simp
  from matches_length [OF this] have "snd z = []" by simp
  with m have "match_all_from ic r p [] = [((p, []), z)]"
    by (subst match_all_from.simps) simp
  with m k show ?case by auto
next
  case (Cons c s)
  show ?case
  proof (cases "matches ic r (p, c # s)")
    case Nil
    with Cons.prems have "matchStarts ic r (c # p) s = [k]" by simp
    from Cons.IH [OF this] obtain a b z zs
      where ab: "s = a @ b" "k = length (c # p) + length a"
        "matches ic r (rev a @ c # p, b) = z # zs"
        "match_all_from ic r (c # p) s = [((rev a @ c # p, b), z)]"
      by blast
    have "match_all_from ic r p (c # s) = match_all_from ic r (c # p) s"
      using Nil by (subst match_all_from.simps, subst (2) match_all_from.simps) simp
    with ab have "c # s = (c # a) @ b \<and> k = length p + length (c # a)
        \<and> matches ic r (rev (c # a) @ p, b) = z # zs
        \<and> match_all_from ic r p (c # s) = [((rev (c # a) @ p, b), z)]"
      by simp
    then show ?thesis by blast
  next
    case (Cons z zs)
    with Cons.prems have k: "k = length p" and rest: "matchStarts ic r (c # p) s = []"
      by simp_all
    have "z \<in> set (matches ic r (p, c # s))" using Cons by simp
    from matches_cursor [OF this] obtain w where w: "c # s = w @ snd z" "fst z = rev w @ p"
      by auto
    have tail: "(if length (snd z) = length (c # s)
                 then (case snd z of [] \<Rightarrow> [] | c' # s' \<Rightarrow> match_all_from ic r (c' # fst z) s')
                 else match_all_from ic r (fst z) (snd z)) = []"
    proof (cases w)
      case Nil
      with w have "snd z = c # s" "fst z = p" by simp_all
      moreover have "match_all_from ic r (c # p) s = []"
        using matchStarts_Nil_all [of ic r "c # p" "[]" s] rest by simp
      ultimately show ?thesis by simp
    next
      case (Cons x w')
      with w have s: "s = w' @ snd z" and f: "fst z = rev w' @ c # p" by simp_all
      from arg_cong [OF s, of length] have "length (snd z) \<noteq> length (c # s)" by simp
      moreover have "match_all_from ic r (fst z) (snd z) = []"
        using matchStarts_Nil_all [of ic r "c # p" w' "snd z"] rest s f by simp
      ultimately show ?thesis by simp
    qed
    have "match_all_from ic r p (c # s) = [((p, c # s), z)]"
      using Cons tail by (subst match_all_from.simps) simp
    with Cons k have "c # s = [] @ (c # s) \<and> k = length p + length ([] :: string)
        \<and> matches ic r (rev [] @ p, c # s) = z # zs
        \<and> match_all_from ic r p (c # s) = [((rev [] @ p, c # s), z)]"
      by simp
    then show ?thesis by blast
  qed
qed

lemma emotion_angry_match:
  "matches True (EMOTION_LABELS ! 0) (p, ''I felt angry'' @ post)
     = [(rev ''I felt angry'' @ p, post)]"
  by (simp add: EMOTION_LABELS_def matches.simps step_chr_def lits_def canonicalize_simps)

lemma concat3_single:
  assumes "xs @ ys @ zs = [n]" and "n \<in> set xs"
  shows "xs = [n] \<and> ys = [] \<and> zs = []"
  using assms by (cases xs) (auto simp: Cons_eq_append_conv)

text \<open>
  Claim C7. Let the show-don't-tell check be on, and let a text have exactly one index
  at which a pattern of \<open>EMOTION_LABELS\<close> matches, where the text reads
  \<open>I felt angry\<close>. Then the analysis reports exactly one show-don't-tell violation; its
  severity is medium and its text is \<open>I felt angry\<close>.
\<close>

theorem analyzeMessage_I_felt_angry:
  assumes on: "showDontTell (validationRules cfg)"
    and only: "concat (map (\<lambda>r. matchStarts True r [] txt) EMOTION_LABELS) = [n]"
    and phrase: "take 12 (drop n txt) = ''I felt angry''"
  shows "filter (\<lambda>v. vtype v = show_dont_tell) (violations (fst (analyzeMessage cfg st txt)))
           = [\<lparr>vtype = show_dont_tell, severity = medium, pattern = None,
                vtext = ''I felt angry'',
                message = ''Using emotion labels instead of showing through actions/sensations''\<rparr>]"
proof -
  define r1 where "r1 = EMOTION_LABELS ! 0"
  define r2 where "r2 = EMOTION_LABELS ! 1"
  define r3 where "r3 = EMOTION_LABELS ! 2"
  have labels: "EMOTION_LABELS = [r1, r2, r3]"
    by (simp add: r1_def r2_def r3_def EMOTION_LABELS_def)
  from phrase have n: "n \<le> length txt" by (cases "n \<le> length txt") auto
  define pre where "pre = take n txt"
  define post where "post = drop 12 (drop n txt)"
  have dropn: "drop n txt = ''I felt angry'' @ post"
    unfolding post_def phrase [symmetric] by (simp only: append_take_drop_id)
  have whole: "txt = pre @ ''I felt angry'' @ post"
    unfolding pre_def dropn [symmetric] by (simp only: append_take_drop_id)
  have len: "length pre = n" using n by (simp add: pre_def)
  have at_n: "matches True r1 (rev pre @ [], ''I felt angry'' @ post)
                = [(rev ''I felt angry'' @ rev pre @ [], post)]"
    unfolding r1_def by (rule emotion_angry_match)
  then have "matches True r1 (rev pre @ [], ''I felt angry'' @ post) \<noteq> []" by simp
  from matchStarts_mem [OF this]
  have "length ([] :: string) + length pre
          \<in> set (matchStarts True r1 [] (pre @ ''I felt angry'' @ post))" .
  then have mem: "n \<in> set (matchStarts True r1 [] txt)"
    unfolding whole [symmetric] len by simp
  from only have "matchStarts True r1 [] txt @ matchStarts True r2 [] txt
                    @ matchStarts True r3 [] txt = [n]"
    by (subst (asm) labels) simp
  from concat3_single [OF this mem]
  have s1: "matchStarts True r1 [] txt = [n]"
    and s2: "matchStarts True r2 [] txt = []"
    and s3: "matchStarts True r3 [] txt = []"
    by simp_all
  have m2: "match_all True r2 txt = []"
    using matchStarts_Nil_all [of True r2 "[]" "[]" "txt"] s2 by (simp add: match_all_def)
  have m3: "match_all True r3 txt = []"
    using matchStarts_Nil_all [of True r3 "[]" "[]" "txt"] s3 by (simp add: match_all_def)
  from match_all_from_single [OF s1] obtain a b z zs
    where ab: "txt = a @ b" "n = length a" "matches True r1 (rev a @ [], b) = z # zs"
      "match_all_from True r1 [] txt = [((rev a @ [], b), z)]"
    by auto
  from ab(1,2) have a: "a = pre" and b: "b = drop n txt" by (simp_all add: pre_def)
  from ab(3) at_n have z: "z = (rev ''I felt angry'' @ rev pre @ [], post)"
    unfolding a b dropn by simp
  have "matchedText ((rev a @ [], b), z) = ''I felt angry''"
    unfolding z b dropn by (simp add: matchedText_def)
  with ab(4) have m1: "match_all True r1 txt = [''I felt angry'']"
    by (simp add: match_all_def)
  have emo: "checkEmotionLabels txt = [emotionViolation ''I felt angry'']"
    unfolding checkEmotionLabels_def by (subst labels) (simp add: m1 m2 m3)
  have scene: "filter (\<lambda>v. vtype v = show_dont_tell) (fst (checkSceneEnding cfg st ss)) = []"
    for ss
    by (auto simp: filter_empty_conv dest: checkSceneEnding_kind)
  have dia: "filter (\<lambda>v. vtype v = show_dont_tell) (checkDialogue txt) = []"
    by (auto simp: filter_empty_conv dest: checkDialogue_kind)
  show ?thesis
    using on by (simp add: analyzeMessage_def Let_def emo scene dia emotionViolation_def)
qed

theorem analyzeMessage_I_felt_angry_witness:
  "filter (\<lambda>v. vtype v = show_dont_tell)
     (violations (fst (analyzeMessage defaultSettings initialState ''So I felt angry.'')))
   = [emotionViolation ''I felt angry'']"
  using analyzeMessage_I_felt_angry [of defaultSettings "''So I felt angry.''" 3 initialState]
  by (simp add: defaultSettings_def EMOTION_LABELS_def matches.simps step_chr_def lits_def
        canonicalize_simps emotionViolation_def)

section \<open>The sentences of a text\<close>

lemma star_Cls_run:
  "\<forall>c\<in>set a. P c \<Longrightarrow> s = [] \<or> \<not> P (hd s) \<Longrightarrow>
     \<exists>zs. matches ic (Star (Cls P)) (p, a @ s) = (rev a @ p, s) # zs"
proof (induction a arbitrary: p)
  case Nil
  then have "step_chr P (p, s) = []" by (cases s) (auto simp: step_chr_def)
  then show ?case by (subst matches.simps) (simp add: matches.simps(3))
next
  case (Cons c a)
  then have c: "step_chr P (p, c # a @ s) = [(c # p, a @ s)]" by (simp add: step_chr_def)
  from Cons.IH [of "c # p"] Cons.prems
  obtain zs where "matches ic (Star (Cls P)) (c # p, a @ s) = (rev a @ c # p, s) # zs" by auto
  then show ?case by (subst matches.simps) (simp add: matches.simps(3) c)
qed

lemma plus_Cls_run:
  assumes "a \<noteq> []" and "\<forall>c\<in>set a. P c" and "s = [] \<or> \<not> P (hd s)"
  shows "\<exists>zs. matches ic (plus (Cls P)) (p, a @ s) = (rev a @ p, s) # zs"
proof -
  from assms(1) obtain c a' where a: "a = c # a'" by (cases a) auto
  with assms(2) have c: "step_chr P (p, c # a' @ s) = [(c # p, a' @ s)]"
    by (simp add: step_chr_def)
  from a assms(2) have "\<forall>x\<in>set a'. P x" by simp
  from star_Cls_run [OF this assms(3), of ic "c # p"]
  obtain zs where "matches ic (Star (Cls P)) (c # p, a' @ s) = (rev a' @ c # p, s) # zs" by auto
  then show ?thesis by (simp add: a plus_def matches.simps(3,4) c)
qed

text \<open>
  At a run of other characters followed by a run of terminators, the sentence pattern
  matches the two runs whole.
\<close>

lemma sentence_match:
  assumes "a \<noteq> []" and "\<forall>c\<in>set a. \<not> isTerminator c"
    and "b \<noteq> []" and "\<forall>c\<in>set b. isTerminator c"
    and "s = [] \<or> \<not> isTerminator (hd s)"
  shows "\<exists>zs. matches False sentencePattern (p, a @ b @ s) = (rev b @ rev a @ p, s) # zs"
proof -
  from assms(3,4) have "b @ s = [] \<or> \<not> \<not> isTerminator (hd (b @ s))" by (cases b) auto
  from plus_Cls_run [OF assms(1) assms(2) this, of False p]
  obtain zs1 where 1: "matches False (plus (Cls (\<lambda>c. \<not> isTerminator c))) (p, a @ b @ s)
                        = (rev a @ p, b @ s) # zs1"
    by auto
  from plus_Cls_run [OF assms(3) assms(4) assms(5), of False "rev a @ p"]
  obtain zs2 where 2: "matches False (plus (Cls isTerminator)) (rev a @ p, b @ s)
                        = (rev b @ rev a @ p, s) # zs2"
    by auto
  show ?thesis by (simp add: sentencePattern_def matches.simps(4) 1 2)
qed

lemma sentence_not_at_terminator:
  "isTerminator c \<Longrightarrow> matches False sentencePattern (p, c # s) = []"
  using plus_Cls_Nil [of "c # s" "\<lambda>c. \<not> isTerminator c" False p]
  by (simp add: sentencePattern_def matches.simps(4))

lemma exec_skip_terminators:
  "\<forall>c\<in>set t. isTerminator c \<Longrightarrow>
     exec False sentencePattern p (t @ s) = exec False sentencePattern (rev t @ p) s"
  by (induction t arbitrary: p) (simp_all add: sentence_not_at_terminator)

lemma match_all_from_cong:
  "exec ic r p s = exec ic r p' s' \<Longrightarrow> match_all_from ic r p s = match_all_from ic r p' s'"
  by (subst match_all_from.simps, subst (2) match_all_from.simps) simp

lemma exec_here: "matches ic r (p, s) = z # zs \<Longrightarrow> exec ic r p s = Some ((p, s), z)"
  by (cases s) simp_all

lemma sentences_cover:
  "s = [] \<or> \<not> isTerminator (hd s) \<Longrightarrow>
     \<exists>trail. s = concat (map matchedText (match_all_from False sentencePattern p s)) @ trail
        \<and> (\<forall>c\<in>set trail. \<not> isTerminator c)"
proof (induction "length s" arbitrary: s p rule: less_induct)
  case less
  define a where "a = takeWhile (\<lambda>c. \<not> isTerminator c) s"
  define rest where "rest = dropWhile (\<lambda>c. \<not> isTerminator c) s"
  have s: "s = a @ rest" by (simp add: a_def rest_def)
  have a: "\<forall>c\<in>set a. \<not> isTerminator c" unfolding a_def by (auto dest: set_takeWhileD)
  show ?case
  proof (cases "rest = []")
    case True
    with s a have none: "\<forall>c\<in>set s. \<not> isTerminator c" by simp
    have "exec False sentencePattern p s = None"
    proof (rule exec_None)
      fix p' s'
      assume "set s' \<subseteq> set s"
      with none have "\<forall>c\<in>set s'. \<not> isTerminator c" by auto
      then show "matches False sentencePattern (p', s') = []" by (rule sentence_no_match)
    qed
    then have "match_all_from False sentencePattern p s = []" by (rule match_all_from_None)
    with none show ?thesis by simp
  next
    case False
    then have hd_rest: "isTerminator (hd rest)"
      unfolding rest_def using hd_dropWhile [of "\<lambda>c. \<not> isTerminator c" s] by auto
    define b where "b = takeWhile isTerminator rest"
    define s' where "s' = dropWhile isTerminator rest"
    have rest: "rest = b @ s'" by (simp add: b_def s'_def)
    have b: "\<forall>c\<in>set b. isTerminator c" unfolding b_def by (auto dest: set_takeWhileD)
    from False hd_rest have b_ne: "b \<noteq> []" unfolding b_def by (cases rest) auto
    have s'_hd: "s' = [] \<or> \<not> isTerminator (hd s')"
      unfolding s'_def using hd_dropWhile [of isTerminator rest] by auto
    from False s have "s \<noteq> []" by auto
    with less.prems have "\<not> isTerminator (hd s)" by simp
    with \<open>s \<noteq> []\<close> have a_ne: "a \<noteq> []" unfolding a_def by (cases s) auto
    have whole: "s = a @ b @ s'" using s rest by simp
    from sentence_match [OF a_ne a b_ne b s'_hd, of p]
    obtain zs where m: "matches False sentencePattern (p, s) = (rev b @ rev a @ p, s') # zs"
      unfolding whole by auto
    from exec_here [OF m]
    have e: "exec False sentencePattern p s = Some ((p, s), (rev b @ rev a @ p, s'))" .
    have shorter: "length s' < length s" using whole a_ne by simp
    then have all: "match_all_from False sentencePattern p s
                 = ((p, s), (rev b @ rev a @ p, s'))
                   # match_all_from False sentencePattern (rev b @ rev a @ p) s'"
      by (subst match_all_from.simps) (simp add: e)
    have mt: "matchedText ((p, s), (rev b @ rev a @ p, s')) = a @ b"
      unfolding whole by (simp add: matchedText_def)
    from less.hyps [OF shorter s'_hd, of "rev b @ rev a @ p"]
    obtain trail where
      t: "s' = concat (map matchedText
                 (match_all_from False sentencePattern (rev b @ rev a @ p) s')) @ trail"
      and tt: "\<forall>c\<in>set trail. \<not> isTerminator c"
      by auto
    have "s = concat (map matchedText (match_all_from False sentencePattern p s)) @ trail"
      unfolding all using t mt whole by simp
    with tt show ?thesis by blast
  qed
qed

text \<open>
  The sentences of a text, one after the other, are the text without the terminators at
  its start and without what follows its last terminator: a sentence holds everything
  since the end of the sentence before it, the white space and the line breaks too.
\<close>

lemma matchSentences_cover:
  "\<exists>lead trail. txt = lead @ concat (matchSentences txt) @ trail
     \<and> (\<forall>c\<in>set lead. isTerminator c) \<and> (\<forall>c\<in>set trail. \<not> isTerminator c)"
proof -
  define lead where "lead = takeWhile isTerminator txt"
  define s where "s = dropWhile isTerminator txt"
  have whole: "txt = lead @ s" by (simp add: lead_def s_def)
  have lead: "\<forall>c\<in>set lead. isTerminator c" unfolding lead_def by (auto dest: set_takeWhileD)
  have s_hd: "s = [] \<or> \<not> isTerminator (hd s)"
    unfolding s_def using hd_dropWhile [of isTerminator "txt"] by auto
  have "exec False sentencePattern [] (lead @ s) = exec False sentencePattern (rev lead @ []) s"
    using lead by (rule exec_skip_terminators)
  then have "match_all_from False sentencePattern [] txt
               = match_all_from False sentencePattern (rev lead @ []) s"
    unfolding whole [symmetric] by (rule match_all_from_cong)
  then have ms: "matchSentences txt
               = map matchedText (match_all_from False sentencePattern (rev lead @ []) s)"
    by (simp add: matchSentences_def match_all_def)
  from sentences_cover [OF s_hd, of "rev lead @ []"] obtain trail
    where "s = concat (matchSentences txt) @ trail" and "\<forall>c\<in>set trail. \<not> isTerminator c"
    unfolding ms by auto
  with whole lead show ?thesis by blast
qed

lemma fortune_sentences:
  "matchSentences fortuneText
     = [''Fortune cookie.'', CHR 0x0A # ''B.'', '' It was just a fortune cookie.'']"
  by (simp add: fortuneText_def matchSentences_def sentencePattern_def regex_eval)

lemma fortune_analysis:
  "analyzeMessage defaultSettings initialState fortuneText =
     (\<lparr>violations =
         [forbiddenViolation ''fortune cookie''
            (''Fortune cookie. '' @ CHR 0x0A # ''B.  It was just a fortune cookie.'')],
       lastSentences = [''Fortune cookie.'', CHR 0x0A # ''B.'', '' It was just a fortune cookie.''],
       wordCount = 9\<rparr>,
      fortuneState)"
  by (simp add: fortuneText_def fortuneState_def analyze_eval regex_eval pattern_defs)

lemma fortune_drop:
  "fst (dropProblematic fortuneState
          [''Fortune cookie.'', CHR 0x0A # ''B.'', '' It was just a fortune cookie.''])
     = Some [''Fortune cookie.'', CHR 0x0A # ''B.'']"
  by (simp add: fortuneState_def dropProblematic_def initialState_apply regex_eval pattern_defs)

theorem fallback_keeps_line_break_counterexample:
  "fst (correctMessage failure
          (snd (analyzeMessage defaultSettings initialState fortuneText))
          fortuneText
          (fst (analyzeMessage defaultSettings initialState fortuneText)))
     = ''Fortune cookie. '' @ CHR 0x0A # ''B.''"
  using fortune_drop
  by (simp add: fortune_analysis correctMessage_def failure_def fallbackCorrection_def
        fixSceneEnding_def fortune_sentences markEmotions_def forbiddenViolation_def
        case_prod_unfold split: option.splits)

lemma dropProblematic_kept:
  "fst (dropProblematic st ss) = Some kept \<Longrightarrow> kept = butlast ss \<or> kept = butlast (butlast ss)"
  by (auto simp: dropProblematic_def case_prod_unfold Let_def split: if_splits)

lemma join_length: "length (join sep ss) = length (concat ss) + (length ss - 1) * length sep"
  by (induction sep ss rule: join.induct) simp_all

lemma butlast_concat: "\<exists>dropped. concat ss = concat (butlast ss) @ dropped"
  by (cases ss rule: rev_cases) auto

text \<open>
  Claim C10, as amended. Whenever the fallback removes a closing sentence, the result is
  the kept sentences joined with one space put between them. Each kept sentence is there
  in full, with the white space and line breaks that came before it in the text, so the
  kept sentences written one after the other are still a contiguous part of the text:
  the white space between sentences is preserved, and one space is added at each joint.
\<close>

theorem fixSceneEnding_keeps_whitespace:
  assumes "filter (\<lambda>v. vtype v = scene_ending) vs \<noteq> []"
    and "fst (dropProblematic st (matchSentences txt)) = Some kept"
  shows "fst (fixSceneEnding st txt vs) = join '' '' kept \<and>
         length (fst (fixSceneEnding st txt vs)) = length (concat kept) + (length kept - 1) \<and>
         (\<exists>lead rest. txt = lead @ concat kept @ rest \<and> (\<forall>c\<in>set lead. isTerminator c))"
proof -
  have res: "fst (fixSceneEnding st txt vs) = join '' '' kept"
    using assms by (simp add: fixSceneEnding_def case_prod_unfold split: option.splits)
  from matchSentences_cover [of "txt"] obtain lead trail
    where cover: "txt = lead @ concat (matchSentences txt) @ trail"
      and lead: "\<forall>c\<in>set lead. isTerminator c"
    by blast
  from dropProblematic_kept [OF assms(2)] butlast_concat [of "matchSentences txt"]
    butlast_concat [of "butlast (matchSentences txt)"]
  obtain dropped where "concat (matchSentences txt) = concat kept @ dropped" by auto
  with cover have "txt = lead @ concat kept @ (dropped @ trail)" by simp
  with lead have "\<exists>lead rest. txt = lead @ concat kept @ rest \<and> (\<forall>c\<in>set lead. isTerminator c)"
    by blast
  with res show ?thesis by (simp add: join_length)
qed

theorem fixSceneEnding_keeps_whitespace_witness:
  "fst (fixSceneEnding fortuneState fortuneText
          [forbiddenViolation ''fortune cookie''
             (''Fortune cookie. '' @ CHR 0x0A # ''B.  It was just a fortune cookie.'')])
     = ''Fortune cookie. '' @ CHR 0x0A # ''B.''"
  using fixSceneEnding_keeps_whitespace
          [of "[forbiddenViolation ''fortune cookie''
                  (''Fortune cookie. '' @ CHR 0x0A # ''B.  It was just a fortune cookie.'')]"
              fortuneState fortuneText "[''Fortune cookie.'', CHR 0x0A # ''B.'']"]
        fortune_drop
  by (simp add: fortune_sentences forbiddenViolation_def)

end
